theory Spec2Isabelle
  imports
    Complex_Main
    "HOL-Library.Log_Nat"
    "HOL-Library.Char_ord"
    "HOL-Library.List_Lexorder"
begin

section \<open>JavaScript numbers\<close>

text \<open>
  A JavaScript \<^verbatim>\<open>number\<close> is an IEEE-754 binary64 value. \<open>Fin q\<close> is the finite
  value \<open>q\<close>; the two zeros are one value here, since \<^verbatim>\<open>+\<close>, \<^verbatim>\<open>>\<close>, \<^verbatim>\<open>===\<close> and
  \<^verbatim>\<open>||\<close>, the only operations App.tsx applies to amounts, do not tell them apart.
  Not every rational is a double: \<open>isDouble\<close> below says which are.
\<close>

datatype number = Fin rat | PInf | NInf | NaN

text \<open>\<open>ilog2 q\<close> is the binary exponent of a positive \<open>q\<close>: \<open>2^e \<le> q < 2^(e+1)\<close>.\<close>

definition ilog2 :: "rat \<Rightarrow> int" where
  "ilog2 q =
     (let (a, b) = quotient_of q; k = bitlen a - bitlen b
      in if 2 powi k \<le> q then k else k - 1)"

definition roundHalfEven :: "rat \<Rightarrow> int" where
  "roundHalfEven x =
     (let f = \<lfloor>x\<rfloor>; d = x - of_int f
      in if d < 1 / 2 then f
         else if 1 / 2 < d then f + 1
         else if even f then f else f + 1)"

text \<open>
  Rounding of an exact result to binary64, round-to-nearest, ties-to-even: 53 significant
  bits, exponents from \<open>-1022\<close> (below it the spacing stays \<open>2^-1074\<close>, the subnormal
  range), overflow to an infinity from \<open>2^1024\<close> on.
\<close>

definition overflowBound :: rat where
  "overflowBound = 2 ^ 1024"

definition round64 :: "rat \<Rightarrow> number" where
  "round64 q =
     (if q = 0 then Fin 0
      else
        let e = max (ilog2 \<bar>q\<bar>) (- 1022) - 52;
            m = roundHalfEven (q / 2 powi e);
            r = of_int m * 2 powi e
        in if overflowBound \<le> r then PInf
           else if r \<le> - overflowBound then NInf
           else Fin r)"

definition isDouble :: "number \<Rightarrow> bool" where
  "isDouble x = (case x of Fin q \<Rightarrow> round64 q = Fin q | _ \<Rightarrow> True)"

text \<open>\<^verbatim>\<open>x + y\<close> on numbers.\<close>

fun nadd :: "number \<Rightarrow> number \<Rightarrow> number" where
  "nadd NaN _ = NaN"
| "nadd _ NaN = NaN"
| "nadd PInf NInf = NaN"
| "nadd NInf PInf = NaN"
| "nadd PInf _ = PInf"
| "nadd _ PInf = PInf"
| "nadd NInf _ = NInf"
| "nadd _ NInf = NInf"
| "nadd (Fin x) (Fin y) = round64 (x + y)"

text \<open>\<^verbatim>\<open>x > y\<close> on numbers: false as soon as one side is NaN.\<close>

fun ngt :: "number \<Rightarrow> number \<Rightarrow> bool" where
  "ngt NaN _ = False"
| "ngt _ NaN = False"
| "ngt NInf _ = False"
| "ngt _ PInf = False"
| "ngt PInf _ = True"
| "ngt _ NInf = True"
| "ngt (Fin x) (Fin y) = (y < x)"

text \<open>\<^verbatim>\<open>x === 0\<close>.\<close>

definition isZero :: "number \<Rightarrow> bool" where
  "isZero x = (x = Fin 0)"

text \<open>\<^verbatim>\<open>x || 0\<close>: the falsy numbers are zero and NaN.\<close>

definition orZero :: "number \<Rightarrow> number" where
  "orZero x = (if x = Fin 0 \<or> x = NaN then Fin 0 else x)"

text \<open>
  The numbers an amount can be: a positive double (or \<open>+Infinity\<close>), and the running
  totals such amounts add up to.
\<close>

definition isPositive :: "number \<Rightarrow> bool" where
  "isPositive x = (isDouble x \<and> ngt x (Fin 0))"

definition nonNegative :: "number \<Rightarrow> bool" where
  "nonNegative x = (isDouble x \<and> x \<noteq> NaN \<and> \<not> ngt (Fin 0) x)"

definition isFinite :: "number \<Rightarrow> bool" where
  "isFinite x = (case x of Fin q \<Rightarrow> True | _ \<Rightarrow> False)"

text \<open>A whole number, and the value of a finite number.\<close>

definition isInteger :: "number \<Rightarrow> bool" where
  "isInteger x = (case x of Fin q \<Rightarrow> of_int \<lfloor>q\<rfloor> = q | _ \<Rightarrow> False)"

definition valueOf :: "number \<Rightarrow> rat" where
  "valueOf x = (case x of Fin q \<Rightarrow> q | _ \<Rightarrow> 0)"

section \<open>types.ts\<close>

datatype ExpenseCategory =
  ALIMENTACAO | TRANSPORTE | LAZER | CONTAS_FIXAS | SAUDE
  | INVESTIMENTOS | EDUCACAO | COMPRAS | OUTROS

text \<open>\<^verbatim>\<open>Object.values(ExpenseCategory)\<close>, in declaration order.\<close>

definition CATEGORY_NAMES_ARRAY :: "ExpenseCategory list" where
  "CATEGORY_NAMES_ARRAY =
     [ALIMENTACAO, TRANSPORTE, LAZER, CONTAS_FIXAS, SAUDE,
      INVESTIMENTOS, EDUCACAO, COMPRAS, OUTROS]"

record Expense =
  id_exp :: string
  amount :: number
  description :: string
  date :: string
  category :: ExpenseCategory
  originalInput :: string

record ParsedExpenseData =
  valor :: "number option"
  descricao :: "string option"
  data :: "string option"

record CategorizedData =
  categoria_c :: "ExpenseCategory option"

datatype QueryType = RESUMO_GERAL | TOTAL_CATEGORIA | DESCONHECIDO | REGISTRO_DESPESA

record ParsedQuery =
  tipoQuery :: QueryType
  categoria :: "ExpenseCategory option"

record HighestSpending =
  hs_category :: ExpenseCategory
  hs_amount :: number

record MonthlySummaryData =
  categoryTotals :: "ExpenseCategory \<Rightarrow> number"
  grandTotal :: number
  highestSpending :: "HighestSpending option"
  monthLabel :: string

section \<open>Strings, dates and sorting of the platform\<close>

text \<open>\<^verbatim>\<open>s.startsWith(p)\<close> and \<^verbatim>\<open>s.slice(0, 7)\<close>.\<close>

definition startsWith :: "string \<Rightarrow> string \<Rightarrow> bool" where
  "startsWith s p = (take (length p) s = p)"

definition slice07 :: "string \<Rightarrow> string" where
  "slice07 s = take 7 s"

definition isDigit :: "char \<Rightarrow> bool" where
  "isDigit c = (CHR ''0'' \<le> c \<and> c \<le> CHR ''9'')"

text \<open>\<^verbatim>\<open>/^\d{4}-\d{2}-\d{2}$/.test(s)\<close>.\<close>

definition matchesDateRegex :: "string \<Rightarrow> bool" where
  "matchesDateRegex s =
     (length s = 10 \<and> list_all isDigit (take 4 s) \<and> s ! 4 = CHR ''-''
      \<and> list_all isDigit (take 2 (drop 5 s)) \<and> s ! 7 = CHR ''-''
      \<and> list_all isDigit (drop 8 s))"

text \<open>White space and line terminators of \<^verbatim>\<open>String.prototype.trim\<close>, among 8-bit characters.\<close>

definition isWhiteSpace :: "char \<Rightarrow> bool" where
  "isWhiteSpace c = (of_char c \<in> {9, 10, 11, 12, 13, 32, 160 :: nat})"

definition trim :: "string \<Rightarrow> string" where
  "trim s = rev (dropWhile isWhiteSpace (rev (dropWhile isWhiteSpace s)))"

definition digitsToNat :: "string \<Rightarrow> nat" where
  "digitsToNat s = foldl (\<lambda>n c. 10 * n + (of_char c - 48)) 0 s"

definition isLeapYear :: "int \<Rightarrow> bool" where
  "isLeapYear y = (y mod 4 = 0 \<and> (y mod 100 \<noteq> 0 \<or> y mod 400 = 0))"

text \<open>ECMAScript's DayFromYear: the day number of 1 January of year \<open>y\<close>, 1970 being day 0.\<close>

definition dayFromYear :: "int \<Rightarrow> int" where
  "dayFromYear y =
     365 * (y - 1970) + (y - 1969) div 4 - (y - 1901) div 100 + (y - 1601) div 400"

text \<open>Days of the year before the first of month \<open>m\<close> (1 to 12).\<close>

definition daysBeforeMonth :: "bool \<Rightarrow> nat \<Rightarrow> int" where
  "daysBeforeMonth leap m =
     (let common = [0, 31, 59, 90, 120, 151, 181, 212, 243, 273, 304, 334]
      in common ! (m - 1) + (if leap \<and> 2 < m then 1 else 0))"

text \<open>
  \<^verbatim>\<open>new Date(s).getTime()\<close>, \<open>None\<close> being NaN. ECMAScript reads the date-only form
  \<^verbatim>\<open>YYYY-MM-DD\<close> as midnight UTC, with the month from 01 to 12 and the day from 01 to
  31; MakeDay then counts the day from the first of the month, so a day past the end of
  its month runs into the next one (V8 does this; an engine may also reject such a
  day). The time of every other string, also of one of the shape \<^verbatim>\<open>dddd-dd-dd\<close> whose
  month or day is out of range, is the parameter \<open>fallback\<close>: it stands for the forms of
  ECMAScript with a time of day and, beyond them, for the formats of the engine, to which
  ECMAScript lets \<^verbatim>\<open>Date.parse\<close> fall back. V8 so reads \<^verbatim>\<open>0012-13-40\<close> as 13 December 2040,
  while it rejects \<^verbatim>\<open>2024-13-40\<close>.
\<close>

type_synonym DateFallback = "string \<Rightarrow> int option"

definition isDateOnly :: "string \<Rightarrow> bool" where
  "isDateOnly s =
     (matchesDateRegex s
      \<and> 1 \<le> digitsToNat (take 2 (drop 5 s)) \<and> digitsToNat (take 2 (drop 5 s)) \<le> 12
      \<and> 1 \<le> digitsToNat (drop 8 s) \<and> digitsToNat (drop 8 s) \<le> 31)"

definition dateGetTime :: "DateFallback \<Rightarrow> string \<Rightarrow> int option" where
  "dateGetTime fallback s =
     (if isDateOnly s
      then
        let y = int (digitsToNat (take 4 s));
            m = digitsToNat (take 2 (drop 5 s));
            d = digitsToNat (drop 8 s)
        in Some ((dayFromYear y + daysBeforeMonth (isLeapYear y) m + int d - 1) * 86400000)
      else fallback s)"

text \<open>
  \<^verbatim>\<open>Array.prototype.sort(cmp)\<close>. The sort is stable; with a consistent comparator its
  result is the one stable sorted arrangement, which this insertion sort computes (with
  an inconsistent comparator the order is left to the engine).
\<close>

fun insort_cmp :: "('a \<Rightarrow> 'a \<Rightarrow> int) \<Rightarrow> 'a \<Rightarrow> 'a list \<Rightarrow> 'a list" where
  "insort_cmp cmp x [] = [x]"
| "insort_cmp cmp x (y # ys) =
     (if cmp x y \<le> 0 then x # y # ys else y # insort_cmp cmp x ys)"

definition jsSort :: "('a \<Rightarrow> 'a \<Rightarrow> int) \<Rightarrow> 'a list \<Rightarrow> 'a list" where
  "jsSort cmp xs = foldr (insort_cmp cmp) xs []"

text \<open>
  The comparator \<^verbatim>\<open>(a, b) => new Date(a.date).getTime() - new Date(b.date).getTime()\<close>;
  a NaN result counts as 0 in a sort.
\<close>

definition compareByDate :: "DateFallback \<Rightarrow> Expense \<Rightarrow> Expense \<Rightarrow> int" where
  "compareByDate fallback a b =
     (case (dateGetTime fallback (date a), dateGetTime fallback (date b)) of
        (Some ta, Some tb) \<Rightarrow> ta - tb
      | _ \<Rightarrow> 0)"

text \<open>
  The store's order: every date parses, and the times of the dates, which the comparator
  subtracts, ascend along the list.
\<close>

definition timeOf :: "DateFallback \<Rightarrow> Expense \<Rightarrow> int" where
  "timeOf fallback ex = the (dateGetTime fallback (date ex))"

definition validDates :: "DateFallback \<Rightarrow> Expense list \<Rightarrow> bool" where
  "validDates fallback xs = list_all (\<lambda>ex. dateGetTime fallback (date ex) \<noteq> None) xs"

definition sortedByDate :: "DateFallback \<Rightarrow> Expense list \<Rightarrow> bool" where
  "sortedByDate fallback xs = sorted (map (timeOf fallback) xs)"

text \<open>The shape \<^verbatim>\<open>YYYY-MM\<close> of a month.\<close>

definition isMonthString :: "string \<Rightarrow> bool" where
  "isMonthString s =
     (length s = 7 \<and> list_all isDigit (take 4 s) \<and> s ! 4 = CHR ''-''
      \<and> list_all isDigit (drop 5 s))"

section \<open>App.tsx: state and environment\<close>

datatype JsError = SyntaxError | TypeError | ServiceError

datatype ToastType = success | error | info

text \<open>
  The toast texts of App.tsx, each with the values its template interpolates:
  \<open>InvalidDate d\<close> the received date; \<open>ExpenseRegistered a c d\<close> the formatted amount, the
  category and the short date; \<open>SummaryShown m\<close> the formatted month;
  \<open>CategoryTotal c m t\<close> is \<^verbatim>\<open>Total de ${category} em ${formatMonthYear(selectedMonth)}:
  ${formatCurrency(total)}\<close>.
\<close>

datatype ToastMessage =
  ApiKeyNotConfigured
  | ApiKeyMissing
  | EmptyInput
  | InvalidDate string
  | ExpenseRegistered string ExpenseCategory string
  | ProcessError
  | DetailsNotUnderstood
  | SummaryShown string
  | CategoryTotal ExpenseCategory string string
  | CommandNotUnderstood

record Toast =
  message :: ToastMessage
  type :: ToastType

datatype AiCall = Interpret string | ParseExpense string | Categorize string

text \<open>
  The text under the key \<^verbatim>\<open>expenses\<close> of localStorage, by what \<^verbatim>\<open>JSON.parse\<close> makes of
  it: \<open>JsonOf xs\<close> is a text that parses to the array \<open>xs\<close> of expense records (as
  \<^verbatim>\<open>JSON.stringify\<close> writes for records with finite amounts), \<open>NonArray\<close> one that
  parses to something without a \<^verbatim>\<open>sort\<close> method, \<open>Malformed\<close> one that does not parse.
\<close>

datatype StoredText = EmptyText | Malformed | NonArray | JsonOf "Expense list"

datatype StorageItem = NoItem | Item StoredText

text \<open>
  The state of the component, with two parts of the world beside it: \<open>localStorage\<close>, the
  item under the key \<^verbatim>\<open>expenses\<close>, and \<open>aiCalls\<close>, the calls made so far to the functions
  of services/aiService, in order.
\<close>

record AppState =
  expenses :: "Expense list"
  userInput :: string
  isLoading :: bool
  toast :: "Toast option"
  apiKeyExists :: bool
  selectedMonth :: string
  localStorage :: StorageItem
  aiCalls :: "AiCall list"

text \<open>
  What App.tsx takes from outside: the formatting and the collation of the locale, the
  clock (the current month in America/Sao_Paulo), the process environment, the id that
  \<^verbatim>\<open>new Date().toISOString() + Math.random()\<close> yields, and the three functions of
  services/aiService, each of which answers or rejects.
\<close>

record Env =
  formatCurrency :: "number \<Rightarrow> string"
  formatMonthYear :: "string \<Rightarrow> string"
  localeCompare :: "string \<Rightarrow> string \<Rightarrow> int"
  getCurrentMonthYearGMT3 :: string
  API_KEY :: "string option"
  newId :: string
  interpretUserQueryWithGemini :: "string \<Rightarrow> JsError + ParsedQuery option"
  parseExpenseInputWithGemini :: "string \<Rightarrow> JsError + ParsedExpenseData option"
  categorizeExpenseWithGemini :: "string \<Rightarrow> JsError + CategorizedData option"

definition splitDash :: "string \<Rightarrow> string list" where
  "splitDash s =
     foldr (\<lambda>c ps. if c = CHR ''-'' then [] # ps else (c # hd ps) # tl ps) s [[]]"

definition formatDateShort :: "string \<Rightarrow> string" where
  "formatDateShort dateString =
     (let ps = splitDash dateString;
          year = hd ps;
          month = (if 1 < length ps then ps ! 1 else ''undefined'');
          day = (if 2 < length ps then ps ! 2 else ''undefined'')
      in day @ ''/'' @ month @ ''/'' @ drop 2 year)"

definition initialState :: "Env \<Rightarrow> StorageItem \<Rightarrow> AppState" where
  "initialState env st =
     \<lparr>expenses = [], userInput = [], isLoading = False, toast = None,
      apiKeyExists = True, selectedMonth = getCurrentMonthYearGMT3 env,
      localStorage = st, aiCalls = []\<rparr>"

section \<open>App.tsx: effects\<close>

text \<open>
  The effect run on mount: the second component is the exception it throws, if any
  (nothing in App.tsx catches it). Like the handlers below it sorts by \<^verbatim>\<open>new Date\<close>, and so
  takes the engine's \<open>fallback\<close> as its first argument.
\<close>

definition loadEffect :: "DateFallback \<Rightarrow> Env \<Rightarrow> AppState \<Rightarrow> AppState \<times> JsError option" where
  "loadEffect fallback env s =
     (let s1 = (if API_KEY env = None \<or> API_KEY env = Some []
                then s\<lparr>apiKeyExists := False,
                       toast := Some \<lparr>message = ApiKeyNotConfigured, type = error\<rparr>\<rparr>
                else s)
      in case localStorage s1 of
           NoItem \<Rightarrow> (s1, None)
         | Item EmptyText \<Rightarrow> (s1, None)
         | Item Malformed \<Rightarrow> (s1, Some SyntaxError)
         | Item NonArray \<Rightarrow> (s1, Some TypeError)
         | Item (JsonOf parsedExpenses) \<Rightarrow>
             (s1\<lparr>expenses := jsSort (compareByDate fallback) parsedExpenses\<rparr>, None))"

definition persistEffect :: "AppState \<Rightarrow> AppState" where
  "persistEffect s = s\<lparr>localStorage := Item (JsonOf (expenses s))\<rparr>"

text \<open>A JavaScript \<^verbatim>\<open>Set\<close> keeps its members in insertion order.\<close>

definition setAdd :: "'a list \<Rightarrow> 'a \<Rightarrow> 'a list" where
  "setAdd ms x = (if x \<in> set ms then ms else ms @ [x])"

definition availableMonths :: "Env \<Rightarrow> Expense list \<Rightarrow> string list" where
  "availableMonths env exps =
     (let months = foldl (\<lambda>ms ex. setAdd ms (slice07 (date ex))) [] exps;
          months' = (if getCurrentMonthYearGMT3 env \<notin> set months
                     then setAdd months (getCurrentMonthYearGMT3 env) else months)
      in jsSort (localeCompare env) months')"

definition selectedMonthEffect :: "Env \<Rightarrow> AppState \<Rightarrow> AppState" where
  "selectedMonthEffect env s =
     (let am = availableMonths env (expenses s)
      in if 0 < length am \<and> selectedMonth s \<notin> set am
         then s\<lparr>selectedMonth :=
                  (if last am = [] then getCurrentMonthYearGMT3 env else last am)\<rparr>
         else if length am = 0 \<and> selectedMonth s \<noteq> getCurrentMonthYearGMT3 env
         then s\<lparr>selectedMonth := getCurrentMonthYearGMT3 env\<rparr>
         else s)"

section \<open>App.tsx: monthlySummaryData\<close>

record Scan =
  summary :: "ExpenseCategory \<Rightarrow> number"
  total :: number
  highest :: "HighestSpending option"

definition scanInit :: Scan where
  "scanInit = \<lparr>summary = (\<lambda>cat. Fin 0), total = Fin 0, highest = None\<rparr>"

text \<open>The body of the \<^verbatim>\<open>forEach\<close>.\<close>

definition scanStep :: "Scan \<Rightarrow> Expense \<Rightarrow> Scan" where
  "scanStep s ex =
     (let t = nadd (orZero (summary s (category ex))) (amount ex);
          hit = \<lparr>hs_category = category ex, hs_amount = t\<rparr>
      in \<lparr>summary = (summary s)(category ex := t),
          total = nadd (total s) (amount ex),
          highest = (case highest s of
                       None \<Rightarrow> Some hit
                     | Some h \<Rightarrow> if ngt t (hs_amount h) then Some hit else Some h)\<rparr>)"

definition monthExpenses :: "Expense list \<Rightarrow> string \<Rightarrow> Expense list" where
  "monthExpenses exps month = filter (\<lambda>ex. startsWith (date ex) month) exps"

definition scanMonth :: "Expense list \<Rightarrow> string \<Rightarrow> Scan" where
  "scanMonth exps month = foldl scanStep scanInit (monthExpenses exps month)"

definition monthlySummaryData :: "Env \<Rightarrow> Expense list \<Rightarrow> string \<Rightarrow> MonthlySummaryData option" where
  "monthlySummaryData env exps month =
     (let s = scanMonth exps month
      in if isZero (total s) \<and> list_all (\<lambda>cat. isZero (summary s cat)) CATEGORY_NAMES_ARRAY
         then None
         else Some \<lparr>categoryTotals = summary s, grandTotal = total s,
                    highestSpending = highest s,
                    monthLabel = formatMonthYear env month\<rparr>)"

section \<open>App.tsx: the handlers\<close>

text \<open>\<^verbatim>\<open>categorized?.categoria || ExpenseCategory.OUTROS\<close>.\<close>

definition categoryOrOutros :: "CategorizedData option \<Rightarrow> ExpenseCategory" where
  "categoryOrOutros categorized =
     (case categorized of
        None \<Rightarrow> OUTROS
      | Some c \<Rightarrow> (case categoria_c c of None \<Rightarrow> OUTROS | Some k \<Rightarrow> k))"

definition handleAddExpense ::
  "DateFallback \<Rightarrow> Env \<Rightarrow> number \<Rightarrow> string \<Rightarrow> string \<Rightarrow> string \<Rightarrow> AppState \<Rightarrow> AppState" where
  "handleAddExpense fallback env valor' descricao' data' originalInputText s =
     (let s1 = s\<lparr>isLoading := True, aiCalls := aiCalls s @ [Categorize descricao']\<rparr>
      in case categorizeExpenseWithGemini env descricao' of
           Inl err \<Rightarrow>
             s1\<lparr>toast := Some \<lparr>message = ProcessError, type = error\<rparr>, isLoading := False\<rparr>
         | Inr categorized \<Rightarrow>
             let cat = categoryOrOutros categorized;
                 finalDate = data'
             in if \<not> matchesDateRegex finalDate \<or> dateGetTime fallback finalDate = None
                then s1\<lparr>toast := Some \<lparr>message = InvalidDate data', type = error\<rparr>,
                        isLoading := False\<rparr>
                else
                  let newExpense =
                        \<lparr>id_exp = newId env, amount = valor', description = descricao',
                         date = finalDate, category = cat, originalInput = originalInputText\<rparr>;
                      expenseMonth = slice07 (date newExpense)
                  in s1\<lparr>expenses := jsSort (compareByDate fallback) (expenses s1 @ [newExpense]),
                         toast := Some \<lparr>message =
                                    ExpenseRegistered (formatCurrency env (amount newExpense))
                                      (category newExpense) (formatDateShort (date newExpense)),
                                  type = success\<rparr>,
                         userInput := [],
                         selectedMonth := (if selectedMonth s1 \<noteq> expenseMonth
                                           then expenseMonth else selectedMonth s1),
                         isLoading := False\<rparr>)"

text \<open>
  handleProcessInput: the second component is the rejection that escapes it, if any
  (its awaits of the interpreter are outside any \<^verbatim>\<open>try\<close>).
\<close>

definition handleProcessInput ::
  "DateFallback \<Rightarrow> Env \<Rightarrow> AppState \<Rightarrow> AppState \<times> JsError option" where
  "handleProcessInput fallback env s =
     (if trim (userInput s) = [] \<or> \<not> apiKeyExists s
      then (if \<not> apiKeyExists s
            then (s\<lparr>toast := Some \<lparr>message = ApiKeyMissing, type = error\<rparr>\<rparr>, None)
            else (s\<lparr>toast := Some \<lparr>message = EmptyInput, type = error\<rparr>\<rparr>, None))
      else
        let s1 = s\<lparr>isLoading := True, aiCalls := aiCalls s @ [Interpret (userInput s)]\<rparr>
        in case interpretUserQueryWithGemini env (userInput s) of
             Inl err \<Rightarrow> (s1, Some err)
           | Inr queryInterpretation \<Rightarrow>
               if map_option tipoQuery queryInterpretation = Some REGISTRO_DESPESA
               then
                 let s2 = s1\<lparr>aiCalls := aiCalls s1 @ [ParseExpense (userInput s)]\<rparr>
                 in case parseExpenseInputWithGemini env (userInput s) of
                      Inl err \<Rightarrow> (s2, Some err)
                    | Inr parsedExpense \<Rightarrow>
                        if parsedExpense \<noteq> None \<and> valor (the parsedExpense) \<noteq> None
                           \<and> descricao (the parsedExpense) \<noteq> None
                           \<and> data (the parsedExpense) \<noteq> None
                        then (handleAddExpense fallback env (the (valor (the parsedExpense)))
                                (the (descricao (the parsedExpense)))
                                (the (data (the parsedExpense))) (userInput s) s2, None)
                        else (s2\<lparr>toast := Some \<lparr>message = DetailsNotUnderstood, type = error\<rparr>,
                                 isLoading := False\<rparr>, None)
               else if map_option tipoQuery queryInterpretation = Some RESUMO_GERAL
               then (s1\<lparr>toast := Some \<lparr>message = SummaryShown (formatMonthYear env (selectedMonth s)),
                                       type = info\<rparr>,
                        userInput := [], isLoading := False\<rparr>, None)
               else if map_option tipoQuery queryInterpretation = Some TOTAL_CATEGORIA
                       \<and> Option.bind queryInterpretation categoria \<noteq> None
               then
                 let cat = the (Option.bind queryInterpretation categoria);
                     tot = (case monthlySummaryData env (expenses s) (selectedMonth s) of
                              None \<Rightarrow> Fin 0
                            | Some m \<Rightarrow> orZero (categoryTotals m cat))
                 in (s1\<lparr>toast := Some \<lparr>message =
                                   CategoryTotal cat (formatMonthYear env (selectedMonth s))
                                     (formatCurrency env tot),
                                 type = info\<rparr>,
                        userInput := [], isLoading := False\<rparr>, None)
               else (s1\<lparr>toast := Some \<lparr>message = CommandNotUnderstood, type = error\<rparr>,
                        isLoading := False\<rparr>, None))"

section \<open>Renders and sequences of adds\<close>

text \<open>
  After a state change React renders again and runs the effects whose dependencies
  changed: the one that writes the list to localStorage and the one that repairs the
  selected month.
\<close>

definition afterRender :: "Env \<Rightarrow> AppState \<Rightarrow> AppState" where
  "afterRender env s = selectedMonthEffect env (persistEffect s)"

text \<open>
  One add request: the environment at the time of the call, and the amount, description,
  date and original text handed to handleAddExpense.
\<close>

type_synonym AddRequest = "Env \<times> number \<times> string \<times> string \<times> string"

fun addExpense :: "DateFallback \<Rightarrow> AppState \<Rightarrow> AddRequest \<Rightarrow> AppState" where
  "addExpense fallback s (env, v, d, dt, inp)
     = afterRender env (handleAddExpense fallback env v d dt inp s)"

definition addExpenses :: "DateFallback \<Rightarrow> AddRequest list \<Rightarrow> AppState \<Rightarrow> AppState" where
  "addExpenses fallback reqs s = foldl (addExpense fallback) s reqs"

section \<open>Notions for the statements\<close>



text \<open>Lists whose amounts are all positive, or all finite.\<close>

definition positiveAmounts :: "Expense list \<Rightarrow> bool" where
  "positiveAmounts exps = list_all (\<lambda>ex. isPositive (amount ex)) exps"


text \<open>
  The running total of a category and the tracked highest spending after the first \<open>n\<close>
  expenses of the month.
\<close>

definition runningTotal :: "Expense list \<Rightarrow> string \<Rightarrow> nat \<Rightarrow> ExpenseCategory \<Rightarrow> number" where
  "runningTotal exps month n = summary (foldl scanStep scanInit (take n (monthExpenses exps month)))"

definition runningHighest :: "Expense list \<Rightarrow> string \<Rightarrow> nat \<Rightarrow> HighestSpending option" where
  "runningHighest exps month n = highest (foldl scanStep scanInit (take n (monthExpenses exps month)))"

text \<open>
  \<^verbatim>\<open>sum(categoryTotals.values())\<close>: the nine category totals of a summary, added in the
  order of \<^verbatim>\<open>Object.values\<close>.
\<close>

definition sumCategoryTotals :: "MonthlySummaryData \<Rightarrow> number" where
  "sumCategoryTotals m = foldl nadd (Fin 0) (map (categoryTotals m) CATEGORY_NAMES_ARRAY)"



text \<open>
  What the scan maintains over the expenses \<open>ms\<close> it has seen, when their amounts are
  positive: totals that are doubles and not negative, and a tracked highest spending that
  is the total of its category and that no total exceeds.
\<close>

definition scanInv :: "Expense list \<Rightarrow> Scan \<Rightarrow> bool" where
  "scanInv ms s =
     ((\<forall>c. nonNegative (summary s c)) \<and> nonNegative (total s)
      \<and> (ms = [] \<longrightarrow> highest s = None \<and> total s = Fin 0 \<and> (\<forall>c. summary s c = Fin 0))
      \<and> (ms \<noteq> [] \<longrightarrow> isPositive (total s)
            \<and> (\<exists>h. highest s = Some h \<and> hs_amount h = summary s (hs_category h)
                  \<and> isPositive (hs_amount h) \<and> (\<forall>c. \<not> ngt (summary s c) (hs_amount h)))))"

text \<open>
  Whole amounts: the integer an amount is, lists of whole amounts, the sum of their
  absolute values, and the sum of those of one category.
\<close>

definition wholeOf :: "Expense \<Rightarrow> int" where
  "wholeOf ex = \<lfloor>valueOf (amount ex)\<rfloor>"

definition wholeAmounts :: "Expense list \<Rightarrow> bool" where
  "wholeAmounts exps = list_all (\<lambda>ex. isInteger (amount ex)) exps"

definition absTotal :: "Expense list \<Rightarrow> int" where
  "absTotal exps = sum_list (map (\<lambda>ex. \<bar>wholeOf ex\<bar>) exps)"

definition wholeOfCategory :: "ExpenseCategory \<Rightarrow> Expense list \<Rightarrow> int" where
  "wholeOfCategory c ms = sum_list (map wholeOf (filter (\<lambda>ex. category ex = c) ms))"

section \<open>Example inputs\<close>

text \<open>
  A fallback that reads nothing. The examples parse date-only strings, which do not reach
  it, and \<^verbatim>\<open>2024-13-40\<close>, which V8 rejects as well.
\<close>

definition noOtherFormat :: DateFallback where
  "noOtherFormat s = None"

text \<open>\<^verbatim>\<open>a.localeCompare(b)\<close> as the order of the code units, for the examples.\<close>

definition codeUnitCompare :: "string \<Rightarrow> string \<Rightarrow> int" where
  "codeUnitCompare a b = (if a < b then - 1 else if a = b then 0 else 1)"

text \<open>
  A \<^verbatim>\<open>formatCurrency\<close> for the examples: a whole amount in decimal digits with the sign
  of the currency and two zero cents, as pt-BR writes it below a thousand; a fraction is
  cut off, and what is not finite goes by its name.
\<close>

fun decimal :: "nat \<Rightarrow> string" where
  "decimal n =
     (if n < 10 then [''0123456789'' ! n]
      else decimal (n div 10) @ [''0123456789'' ! (n mod 10)])"

definition exampleCurrency :: "number \<Rightarrow> string" where
  "exampleCurrency x =
     (case x of
        Fin q \<Rightarrow> (if q < 0 then ''-R$ '' else ''R$ '') @ decimal (nat \<lfloor>\<bar>q\<bar>\<rfloor>) @ '',00''
      | PInf \<Rightarrow> ''R$ Infinity''
      | NInf \<Rightarrow> ''-R$ Infinity''
      | NaN \<Rightarrow> ''R$ NaN'')"

definition exampleEnv :: Env where
  "exampleEnv =
     \<lparr>formatCurrency = exampleCurrency,
      formatMonthYear = (\<lambda>m. m),
      localeCompare = codeUnitCompare,
      getCurrentMonthYearGMT3 = ''2024-06'',
      API_KEY = Some ''key'',
      newId = ''id-1'',
      interpretUserQueryWithGemini =
        (\<lambda>t. Inr (Some \<lparr>tipoQuery = TOTAL_CATEGORIA, categoria = Some ALIMENTACAO\<rparr>)),
      parseExpenseInputWithGemini =
        (\<lambda>t. Inr (Some \<lparr>valor = Some (Fin 30), descricao = Some ''lanche'',
                           data = Some ''2024-06-03''\<rparr>)),
      categorizeExpenseWithGemini = (\<lambda>d. Inr (Some \<lparr>categoria_c = Some ALIMENTACAO\<rparr>))\<rparr>"

definition exampleExpenses :: "Expense list" where
  "exampleExpenses =
     [\<lparr>id_exp = ''a'', amount = Fin 500, description = ''rent'', date = ''2024-05-01'',
       category = CONTAS_FIXAS, originalInput = ''rent 500''\<rparr>,
      \<lparr>id_exp = ''b'', amount = Fin 50, description = ''snack'', date = ''2024-05-03'',
       category = ALIMENTACAO, originalInput = ''snack 50''\<rparr>]"

definition exampleState :: AppState where
  "exampleState =
     \<lparr>expenses = exampleExpenses, userInput = ''  '', isLoading = False, toast = None,
      apiKeyExists = True, selectedMonth = ''2024-05'',
      localStorage = Item (JsonOf exampleExpenses), aiCalls = []\<rparr>"

definition tieExpenses :: "Expense list" where
  "tieExpenses =
     [\<lparr>id_exp = ''a'', amount = Fin 20, description = ''bus'', date = ''2024-05-01'',
       category = TRANSPORTE, originalInput = ''bus 20''\<rparr>,
      \<lparr>id_exp = ''b'', amount = Fin 50, description = ''snack'', date = ''2024-05-02'',
       category = ALIMENTACAO, originalInput = ''snack 50''\<rparr>,
      \<lparr>id_exp = ''c'', amount = Fin 30, description = ''taxi'', date = ''2024-05-03'',
       category = TRANSPORTE, originalInput = ''taxi 30''\<rparr>]"

text \<open>
  A store with food in May (70 and 50) and in June (25), and a bus fare in May; and one
  whose food of May is \<^verbatim>\<open>Infinity\<close> and \<^verbatim>\<open>-Infinity\<close>, the numbers that \<^verbatim>\<open>JSON.parse\<close> reads
  from \<^verbatim>\<open>1e999\<close> and \<^verbatim>\<open>-1e999\<close> in an answer of the extraction service.
\<close>

definition foodExpenses :: "Expense list" where
  "foodExpenses =
     [\<lparr>id_exp = ''a'', amount = Fin 70, description = ''market'', date = ''2024-05-02'',
       category = ALIMENTACAO, originalInput = ''market 70''\<rparr>,
      \<lparr>id_exp = ''b'', amount = Fin 9, description = ''bus'', date = ''2024-05-02'',
       category = TRANSPORTE, originalInput = ''bus 9''\<rparr>,
      \<lparr>id_exp = ''c'', amount = Fin 50, description = ''snack'', date = ''2024-05-03'',
       category = ALIMENTACAO, originalInput = ''snack 50''\<rparr>,
      \<lparr>id_exp = ''d'', amount = Fin 25, description = ''bakery'', date = ''2024-06-01'',
       category = ALIMENTACAO, originalInput = ''bakery 25''\<rparr>]"

definition foodState :: AppState where
  "foodState =
     \<lparr>expenses = foodExpenses,
      userInput = ''total alimentacao'', isLoading = False, toast = None,
      apiKeyExists = True, selectedMonth = ''2024-05'',
      localStorage = Item (JsonOf foodExpenses), aiCalls = []\<rparr>"



text \<open>The numbers that the literals \<^verbatim>\<open>0.1\<close>, \<^verbatim>\<open>0.2\<close> and \<^verbatim>\<open>0.3\<close> denote.\<close>

definition tenCents :: number where
  "tenCents = round64 (1 / 10)"

definition twentyCents :: number where
  "twentyCents = round64 (2 / 10)"

definition thirtyCents :: number where
  "thirtyCents = round64 (3 / 10)"

definition centExpenses :: "Expense list" where
  "centExpenses =
     [\<lparr>id_exp = ''a'', amount = tenCents, description = ''gum'', date = ''2024-05-01'',
       category = ALIMENTACAO, originalInput = ''gum 0.10''\<rparr>,
      \<lparr>id_exp = ''b'', amount = twentyCents, description = ''bus'', date = ''2024-05-02'',
       category = TRANSPORTE, originalInput = ''bus 0.20''\<rparr>,
      \<lparr>id_exp = ''c'', amount = thirtyCents, description = ''tram'', date = ''2024-05-03'',
       category = TRANSPORTE, originalInput = ''tram 0.30''\<rparr>]"

section \<open>Rounding to binary64\<close>

lemma two_powi_less_iff: "((2::rat) powi m < 2 powi n) = (m < n)"
proof
  assume "(2::rat) powi m < 2 powi n"
  show "m < n"
  proof (rule ccontr)
    assume "\<not> m < n"
    then have "(2::rat) powi n \<le> 2 powi m"
      by (intro power_int_increasing) simp_all
    then show False using \<open>(2::rat) powi m < 2 powi n\<close> by simp
  qed
next
  assume "m < n"
  then show "(2::rat) powi m < 2 powi n"
    by (intro power_int_strict_increasing) simp_all
qed

lemma two_powi_le_iff: "((2::rat) powi m \<le> 2 powi n) = (m \<le> n)"
  using two_powi_less_iff [of n m] by (simp add: not_less [symmetric])

lemma two_powi_add: "(2::rat) powi (m + n) = 2 powi m * 2 powi n"
  by (rule power_int_add) simp

lemma two_powi_diff: "(2::rat) powi (m - n) = 2 powi m / 2 powi n"
  by (rule power_int_diff) simp

lemma bitlen_powi_bounds:
  assumes "0 < a"
  shows "(2::rat) powi (bitlen a - 1) \<le> of_int a \<and> of_int a < (2::rat) powi (bitlen a)"
proof -
  have b: "2 ^ nat (bitlen a - 1) \<le> a \<and> a < 2 ^ nat (bitlen a)"
    using assms by (rule bitlen_bounds)
  have ge1: "1 \<le> bitlen a"
  proof (rule ccontr)
    assume "\<not> 1 \<le> bitlen a"
    then have "nat (bitlen a) = 0" by simp
    then show False using b assms by simp
  qed
  have "(of_int (2 ^ nat (bitlen a - 1)) :: rat) \<le> of_int a"
    using b by (simp only: of_int_le_iff)
  moreover have "(of_int a :: rat) < of_int (2 ^ nat (bitlen a))"
    using b by (simp only: of_int_less_iff)
  ultimately show ?thesis
    using ge1 by (simp add: power_int_nonneg_exp)
qed

lemma ilog2_bounds:
  assumes "0 < q"
  shows "2 powi (ilog2 q) \<le> q \<and> q < 2 powi (ilog2 q + 1)"
proof -
  obtain a b where ab: "quotient_of q = (a, b)"
    by (cases "quotient_of q")
  have bpos: "0 < b"
    using ab by (rule quotient_of_denom_pos)
  have q: "q = of_int a / of_int b"
    using ab by (rule quotient_of_div)
  have apos: "0 < a"
    using assms q bpos by (simp add: zero_less_divide_iff)
  define k where "k = bitlen a - bitlen b"
  note A = bitlen_powi_bounds [OF apos] and B = bitlen_powi_bounds [OF bpos]
  have up: "q < 2 powi (k + 1)"
  proof -
    have "of_int a < (2::rat) powi (k + 1) * 2 powi (bitlen b - 1)"
      using A by (simp add: k_def power_int_add [symmetric])
    also have "\<dots> \<le> 2 powi (k + 1) * of_int b"
      using B by (simp add: mult_left_mono)
    finally show ?thesis
      using bpos by (simp add: q pos_divide_less_eq)
  qed
  have lo: "2 powi (k - 1) < q"
  proof -
    have "(2::rat) powi (k - 1) * of_int b < 2 powi (k - 1) * 2 powi (bitlen b)"
      using B by (simp add: mult_strict_left_mono)
    also have "\<dots> \<le> of_int a"
      using A by (simp add: k_def power_int_add [symmetric])
    finally show ?thesis
      using bpos by (simp add: q pos_less_divide_eq)
  qed
  have il: "ilog2 q = (if 2 powi k \<le> q then k else k - 1)"
    by (simp add: ilog2_def ab k_def)
  show ?thesis
    using up lo by (auto simp: il)
qed

lemma ilog2_unique:
  assumes "2 powi e \<le> q" and "q < 2 powi (e + 1)"
  shows "ilog2 q = e"
proof -
  have pos: "0 < q"
    using assms(1) by (rule less_le_trans [rotated]) simp
  note b = ilog2_bounds [OF pos]
  have "(2::rat) powi e < 2 powi (ilog2 q + 1)"
    using assms(1) b by linarith
  then have 1: "e < ilog2 q + 1"
    by (simp only: two_powi_less_iff)
  have "(2::rat) powi (ilog2 q) < 2 powi (e + 1)"
    using assms(2) b by linarith
  then have 2: "ilog2 q < e + 1"
    by (simp only: two_powi_less_iff)
  show ?thesis using 1 2 by simp
qed

lemma ilog2_mono:
  assumes "0 < q" and "q \<le> r"
  shows "ilog2 q \<le> ilog2 r"
proof -
  have "0 < r" using assms by simp
  note bq = ilog2_bounds [OF assms(1)] and br = ilog2_bounds [OF \<open>0 < r\<close>]
  have "(2::rat) powi (ilog2 q) < 2 powi (ilog2 r + 1)"
    using bq br assms(2) by linarith
  then have "ilog2 q < ilog2 r + 1"
    by (simp only: two_powi_less_iff)
  then show ?thesis by simp
qed

lemma roundHalfEven_cases:
  "roundHalfEven x = \<lfloor>x\<rfloor> \<or> (roundHalfEven x = \<lfloor>x\<rfloor> + 1 \<and> of_int \<lfloor>x\<rfloor> < x)"
  by (auto simp: roundHalfEven_def Let_def)

lemma roundHalfEven_lower:
  assumes "of_int n \<le> x"
  shows "n \<le> roundHalfEven x"
proof -
  have "n \<le> \<lfloor>x\<rfloor>"
    using assms by (simp add: le_floor_iff)
  then show ?thesis
    using roundHalfEven_cases [of x] by auto
qed

lemma roundHalfEven_upper:
  assumes "x \<le> of_int n"
  shows "roundHalfEven x \<le> n"
proof -
  have le: "\<lfloor>x\<rfloor> \<le> n"
    using assms by (simp add: floor_le_iff)
  have "of_int \<lfloor>x\<rfloor> < x \<Longrightarrow> \<lfloor>x\<rfloor> + 1 \<le> n"
  proof -
    assume "of_int \<lfloor>x\<rfloor> < x"
    then have "(of_int \<lfloor>x\<rfloor> :: rat) < of_int n"
      using assms by simp
    then show ?thesis by simp
  qed
  then show ?thesis
    using roundHalfEven_cases [of x] le by auto
qed

lemma roundHalfEven_of_int: "roundHalfEven (of_int n) = n"
  by (simp add: roundHalfEven_def)

lemma round64_scaled_int:
  assumes v: "v = of_int m * 2 powi e"
      and m: "\<bar>m\<bar> < 2 ^ 53" and e: "- 1074 \<le> e" and bound: "\<bar>v\<bar> < overflowBound"
  shows "round64 v = Fin v"
proof (cases "v = 0")
  case True
  then show ?thesis by (simp add: round64_def)
next
  case False
  define ev where "ev = max (ilog2 \<bar>v\<bar>) (- 1022) - 52"
  have pos: "0 < \<bar>v\<bar>" using False by simp
  have "\<bar>v\<bar> = of_int \<bar>m\<bar> * 2 powi e"
    by (simp add: v abs_mult)
  also have "\<dots> < of_int (2 ^ 53) * 2 powi e"
  proof -
    have "rat_of_int \<bar>m\<bar> < of_int (2 ^ 53)"
      using m by (simp only: of_int_less_iff)
    moreover have "0 < (2::rat) powi e" by simp
    ultimately show ?thesis by (rule mult_strict_right_mono)
  qed
  also have "\<dots> = 2 powi (53 + e)"
    by (simp add: two_powi_add)
  finally have "\<bar>v\<bar> < 2 powi (53 + e)" .
  then have "(2::rat) powi (ilog2 \<bar>v\<bar>) < 2 powi (53 + e)"
    using ilog2_bounds [OF pos] by linarith
  then have "ilog2 \<bar>v\<bar> < 53 + e"
    by (simp only: two_powi_less_iff)
  then have le: "ev \<le> e"
    using e by (simp add: ev_def)
  have "(2::rat) powi e = 2 powi (e - ev) * 2 powi ev"
    by (simp add: two_powi_add [symmetric])
  also have "(2::rat) powi (e - ev) = of_int (2 ^ nat (e - ev))"
    using le by (simp add: power_int_nonneg_exp)
  finally have split: "(2::rat) powi e = of_int (2 ^ nat (e - ev)) * 2 powi ev" .
  have "v / 2 powi ev = of_int (m * 2 ^ nat (e - ev))"
    by (simp add: v split)
  then have "roundHalfEven (v / 2 powi ev) = m * 2 ^ nat (e - ev)"
    by (simp only: roundHalfEven_of_int)
  then have r: "of_int (roundHalfEven (v / 2 powi ev)) * 2 powi ev = v"
    by (simp add: v split)
  have nb: "\<not> overflowBound \<le> v" "\<not> v \<le> - overflowBound"
    using bound by (simp_all add: abs_less_iff)
  show ?thesis
    using False r nb unfolding round64_def Let_def ev_def [symmetric] by simp
qed

lemma round64_of_int:
  assumes "\<bar>n\<bar> < 2 ^ 53"
  shows "round64 (of_int n) = Fin (of_int n)"
proof (rule round64_scaled_int [where m = n and e = 0])
  show "\<bar>rat_of_int n\<bar> < overflowBound"
  proof -
    have "\<bar>n\<bar> < 2 ^ 1024"
      using assms by (rule less_trans) simp
    then have "rat_of_int \<bar>n\<bar> < rat_of_int (2 ^ 1024)"
      by (simp only: of_int_less_iff)
    then show ?thesis by (simp add: overflowBound_def)
  qed
qed (use assms in simp_all)

lemma round64_scaled_int_le:
  assumes v: "v = of_int m * 2 powi e"
      and m: "\<bar>m\<bar> \<le> 2 ^ 53" and e: "- 1074 \<le> e" and bound: "\<bar>v\<bar> < overflowBound"
  shows "round64 v = Fin v"
proof (cases "\<bar>m\<bar> < 2 ^ 53")
  case True
  with v show ?thesis using e bound by (rule round64_scaled_int)
next
  case False
  then have "m = 2 ^ 53 \<or> m = - (2 ^ 53)"
    using m by linarith
  then have "v = of_int (m div 2) * 2 powi (e + 1) \<and> \<bar>m div 2\<bar> < 2 ^ 53"
    by (auto simp: v two_powi_add)
  then show ?thesis
    using e bound by (intro round64_scaled_int [where m = "m div 2" and e = "e + 1"]) simp_all
qed

text \<open>The parts of a rounding: exponent of the last place, and mantissa.\<close>

lemma round64_parts:
  assumes "q \<noteq> 0"
  defines "e \<equiv> max (ilog2 \<bar>q\<bar>) (- 1022) - 52"
  defines "m \<equiv> roundHalfEven (q / 2 powi e)"
  defines "r \<equiv> rat_of_int m * 2 powi e"
  shows "round64 q = (if overflowBound \<le> r then PInf
                      else if r \<le> - overflowBound then NInf else Fin r)"
    and "- 1074 \<le> e" and "\<bar>m\<bar> \<le> 2 ^ 53"
proof -
  show "round64 q = (if overflowBound \<le> r then PInf
                      else if r \<le> - overflowBound then NInf else Fin r)"
    using assms(1) by (simp add: round64_def Let_def e_def m_def r_def)
  show "- 1074 \<le> e" by (simp add: e_def)
  have pos: "0 < \<bar>q\<bar>" using assms(1) by simp
  have "ilog2 \<bar>q\<bar> + 1 \<le> e + 53"
    by (simp add: e_def)
  then have "(2::rat) powi (ilog2 \<bar>q\<bar> + 1) \<le> 2 powi (e + 53)"
    by (simp only: two_powi_le_iff)
  then have "\<bar>q\<bar> < 2 powi (e + 53)"
    using ilog2_bounds [OF pos] by linarith
  then have "\<bar>q\<bar> < 2 ^ 53 * 2 powi e"
    by (simp add: two_powi_add mult.commute)
  then have lt: "\<bar>q\<bar> / 2 powi e < 2 ^ 53"
    by (simp add: pos_divide_less_eq)
  have "q / 2 powi e \<le> \<bar>q\<bar> / 2 powi e"
    by (intro divide_right_mono) simp_all
  moreover have "(- \<bar>q\<bar>) / 2 powi e \<le> q / 2 powi e"
    by (intro divide_right_mono) simp_all
  ultimately have up: "q / 2 powi e \<le> of_int (2 ^ 53)"
    and lo: "of_int (- (2 ^ 53)) \<le> q / 2 powi e"
    using lt by simp_all
  have "m \<le> 2 ^ 53"
    unfolding m_def using up by (rule roundHalfEven_upper)
  moreover have "- (2 ^ 53) \<le> m"
    unfolding m_def using lo by (rule roundHalfEven_lower)
  ultimately have "m \<le> 2 ^ 53" "- (2 ^ 53) \<le> m" .
  then show "\<bar>m\<bar> \<le> 2 ^ 53" by simp
qed

lemma round64_closed:
  assumes "round64 q = Fin v"
  shows "round64 v = Fin v"
proof (cases "q = 0")
  case True
  then show ?thesis using assms by (auto simp: round64_def)
next
  case False
  define e where "e = max (ilog2 \<bar>q\<bar>) (- 1022) - 52"
  define m where "m = roundHalfEven (q / 2 powi e)"
  note p = round64_parts [OF False, folded e_def, folded m_def]
  have v: "v = of_int m * 2 powi e" and b: "\<bar>v\<bar> < overflowBound"
    using assms p(1) by (auto split: if_splits)
  show ?thesis
    using v p(3) p(2) b by (rule round64_scaled_int_le)
qed

lemma round64_ge:
  assumes r: "0 < r" and le: "r \<le> q" and rep: "round64 r = Fin r"
  shows "round64 q = PInf \<or> (\<exists>v. round64 q = Fin v \<and> r \<le> v)"
proof -
  have q0: "q \<noteq> 0" and r0: "r \<noteq> 0" using r le by simp_all
  define eq where "eq = max (ilog2 \<bar>q\<bar>) (- 1022) - 52"
  define mq where "mq = roundHalfEven (q / 2 powi eq)"
  define er where "er = max (ilog2 \<bar>r\<bar>) (- 1022) - 52"
  define mr where "mr = roundHalfEven (r / 2 powi er)"
  note pq = round64_parts [OF q0, folded eq_def, folded mq_def]
  note pr = round64_parts [OF r0, folded er_def, folded mr_def]
  have rv: "r = of_int mr * 2 powi er"
    using rep pr(1) by (auto split: if_splits)
  have absq: "\<bar>q\<bar> = q" and absr: "\<bar>r\<bar> = r" using r le by simp_all
  have mono: "ilog2 r \<le> ilog2 q"
    using r le by (rule ilog2_mono)
  have key: "r \<le> of_int mq * 2 powi eq"
  proof (cases "er = eq")
    case True
    have "of_int mr \<le> q / 2 powi eq"
      using le by (simp add: rv True pos_le_divide_eq)
    then have "mr \<le> mq"
      unfolding mq_def by (rule roundHalfEven_lower)
    then have "rat_of_int mr \<le> of_int mq" by simp
    then show ?thesis
      by (simp add: rv True mult_right_mono)
  next
    case False
    then have lt: "ilog2 r < ilog2 q" and eqn: "eq = ilog2 q - 52"
      using mono by (auto simp: er_def eq_def absq absr)
    have "r < 2 powi (ilog2 r + 1)"
      using ilog2_bounds [OF r] by simp
    also have "\<dots> \<le> 2 powi (ilog2 q)"
      using lt by (simp add: two_powi_le_iff)
    finally have rlt: "r < 2 powi (ilog2 q)" .
    have "(2::rat) powi (ilog2 q) = of_int (2 ^ 52) * 2 powi eq"
      by (simp add: eqn two_powi_diff)
    moreover have "2 powi (ilog2 q) \<le> q"
      using ilog2_bounds [of q] r le by simp
    ultimately have "of_int (2 ^ 52) \<le> q / 2 powi eq"
      by (simp add: pos_le_divide_eq)
    then have "2 ^ 52 \<le> mq"
      unfolding mq_def by (rule roundHalfEven_lower)
    then have "rat_of_int (2 ^ 52) \<le> of_int mq"
      by (simp only: of_int_le_iff)
    then have "rat_of_int (2 ^ 52) * 2 powi eq \<le> of_int mq * 2 powi eq"
      by (intro mult_right_mono) simp_all
    then show ?thesis
      using rlt \<open>(2::rat) powi (ilog2 q) = of_int (2 ^ 52) * 2 powi eq\<close> by linarith
  qed
  have "0 < overflowBound"
    by (simp add: overflowBound_def)
  then have "\<not> of_int mq * 2 powi eq \<le> - overflowBound"
    using key r by linarith
  then show ?thesis
    using pq(1) key by auto
qed

lemma floor_rat_divide_numeral:
  "\<lfloor>(numeral a :: rat) / numeral b\<rfloor> = numeral a div numeral b"
  using floor_divide_of_int_eq [of "numeral a" "numeral b", where ?'a = rat] by simp

lemma round64_eval:
  assumes "2 powi E \<le> \<bar>q\<bar>" and "\<bar>q\<bar> < 2 powi (E + 1)"
  shows "round64 q =
     (let e = max E (- 1022) - 52;
          r = of_int (roundHalfEven (q / 2 powi e)) * 2 powi e
      in if overflowBound \<le> r then PInf else if r \<le> - overflowBound then NInf else Fin r)"
proof -
  have "ilog2 \<bar>q\<bar> = E"
    using assms by (rule ilog2_unique)
  moreover have "0 < \<bar>q\<bar>"
    using assms(1) by (rule less_le_trans [rotated]) simp
  ultimately show ?thesis
    by (simp add: round64_def Let_def)
qed

lemmas round64_eval_simps =
  roundHalfEven_def overflowBound_def Let_def floor_rat_divide_numeral

section \<open>Sums of positive numbers\<close>

lemma isDouble_round64: "isDouble (round64 q)"
  by (cases "round64 q") (auto simp: isDouble_def dest: round64_closed)

lemma round64_not_NaN: "round64 q \<noteq> NaN"
  by (simp add: round64_def Let_def)

lemma isDouble_nadd: "isDouble x \<Longrightarrow> isDouble y \<Longrightarrow> isDouble (nadd x y)"
  by (cases x; cases y) (simp_all add: isDouble_round64, simp_all add: isDouble_def)

lemma ngt_irrefl: "\<not> ngt x x"
  by (cases x) simp_all

lemma ngt_trans: "ngt x y \<Longrightarrow> ngt y z \<Longrightarrow> ngt x z"
  by (cases x; cases y; cases z) simp_all

lemma ngt_le_trans: "ngt x y \<Longrightarrow> \<not> ngt z y \<Longrightarrow> z \<noteq> NaN \<Longrightarrow> ngt x z"
  by (cases x; cases y; cases z) simp_all

lemma le_ngt_trans: "\<not> ngt z y \<Longrightarrow> ngt x y \<Longrightarrow> z \<noteq> NaN \<Longrightarrow> ngt x z"
  by (cases x; cases y; cases z) simp_all

lemma nle_trans:
  "\<not> ngt x y \<Longrightarrow> \<not> ngt y z \<Longrightarrow> y \<noteq> NaN \<Longrightarrow> \<not> ngt x z"
  by (cases x; cases y; cases z) simp_all

lemma nle_antisym:
  "\<not> ngt x y \<Longrightarrow> \<not> ngt y x \<Longrightarrow> x \<noteq> NaN \<Longrightarrow> y \<noteq> NaN \<Longrightarrow> x = y"
  by (cases x; cases y) simp_all

lemma nonNegative_zero: "nonNegative (Fin 0)"
  by (simp add: nonNegative_def isDouble_def round64_def)

lemma isPositive_nonNegative: "isPositive x \<Longrightarrow> nonNegative x"
  by (cases x) (simp_all add: isPositive_def nonNegative_def)

lemma orZero_nonNegative: "nonNegative x \<Longrightarrow> orZero x = x"
  by (auto simp: orZero_def nonNegative_def)

lemma nadd_positive:
  assumes t: "nonNegative t" and a: "isPositive a"
  shows "isPositive (nadd t a) \<and> \<not> ngt t (nadd t a) \<and> \<not> ngt a (nadd t a)"
proof (cases t)
  case (Fin x)
  then have x: "0 \<le> x" "round64 x = Fin x"
    using t by (simp_all add: nonNegative_def isDouble_def)
  show ?thesis
  proof (cases a)
    case a_def: (Fin y)
    then have y: "0 < y" "round64 y = Fin y"
      using a by (simp_all add: isPositive_def isDouble_def)
    have sum: "nadd t a = round64 (x + y)"
      by (simp add: Fin a_def)
    have gy: "round64 (x + y) = PInf \<or> (\<exists>v. round64 (x + y) = Fin v \<and> y \<le> v)"
      using y x(1) by (intro round64_ge) simp_all
    have gx: "round64 (x + y) = PInf \<or> (\<exists>v. round64 (x + y) = Fin v \<and> x \<le> v)"
    proof (cases "x = 0")
      case True
      then show ?thesis using gy y(1) by auto
    next
      case False
      then show ?thesis using x y(1) by (intro round64_ge) simp_all
    qed
    show ?thesis
      using gx gy y(1) by (auto simp: sum Fin a_def isPositive_def isDouble_round64)
  next
    case PInf
    then show ?thesis by (simp add: Fin isPositive_def isDouble_def)
  qed (use a in \<open>simp_all add: isPositive_def\<close>)
next
  case PInf
  then show ?thesis using a by (cases a) (simp_all add: isPositive_def isDouble_def)
qed (use t in \<open>simp_all add: nonNegative_def\<close>)

section \<open>Sorting and the available months: basic facts\<close>

lemma set_insort_cmp: "set (insort_cmp cmp x ys) = insert x (set ys)"
  by (induction ys) auto

lemma set_jsSort: "set (jsSort cmp xs) = set xs"
  by (induction xs) (auto simp: jsSort_def set_insort_cmp)

lemma set_setAdd: "set (setAdd ms x) = insert x (set ms)"
  by (auto simp: setAdd_def)

lemma set_months_fold:
  "set (foldl (\<lambda>ms ex. setAdd ms (slice07 (date ex))) acc exps)
     = set acc \<union> (\<lambda>ex. slice07 (date ex)) ` set exps"
  by (induction exps arbitrary: acc) (auto simp: set_setAdd)

lemma set_availableMonths:
  "set (availableMonths env exps)
     = insert (getCurrentMonthYearGMT3 env) ((\<lambda>ex. slice07 (date ex)) ` set exps)"
  by (auto simp: availableMonths_def Let_def set_jsSort set_setAdd set_months_fold)

lemma selectedMonthEffect_member:
  "selectedMonth s \<in> set (availableMonths env (expenses s)) \<Longrightarrow> selectedMonthEffect env s = s"
  by (auto simp: selectedMonthEffect_def Let_def)

lemma insort_cmp_eq_insort_key:
  assumes "\<forall>y \<in> set ys. (cmp x y \<le> 0) = (key x \<le> key y)"
  shows "insort_cmp cmp x ys = insort_key key x ys"
  using assms by (induction ys) auto

lemma jsSort_eq_sort_key:
  fixes key :: "'a \<Rightarrow> 'k::linorder"
  assumes "\<forall>x \<in> set xs. \<forall>y \<in> set xs. (cmp x y \<le> 0) = (key x \<le> key y)"
  shows "jsSort cmp xs = sort_key key xs"
  using assms
proof (induction xs)
  case Nil
  then show ?case by (simp add: jsSort_def)
next
  case (Cons x xs)
  have tl: "jsSort cmp xs = sort_key key xs"
    using Cons by simp
  have "\<forall>y \<in> set (sort_key key xs). (cmp x y \<le> 0) = (key x \<le> key y)"
    using Cons.prems by simp
  then have "insort_cmp cmp x (sort_key key xs) = insort_key key x (sort_key key xs)"
    by (rule insort_cmp_eq_insort_key)
  then show ?case
    using tl by (simp add: jsSort_def)
qed

lemma insort_key_front:
  fixes key :: "'a \<Rightarrow> 'k::linorder"
  shows "\<forall>z \<in> set zs. key y \<le> key z \<Longrightarrow> insort_key key y zs = y # zs"
  by (cases zs) auto

lemma sort_key_snoc_sorted:
  fixes key :: "'a \<Rightarrow> 'k::linorder"
  assumes "sorted (map key xs)"
  shows "sort_key key (xs @ [x])
           = takeWhile (\<lambda>y. key y \<le> key x) xs @ x # dropWhile (\<lambda>y. key y \<le> key x) xs"
  using assms
proof (induction xs)
  case Nil
  then show ?case by simp
next
  case (Cons y ys)
  let ?P = "\<lambda>z. key z \<le> key x"
  have ih: "sort_key key (ys @ [x]) = takeWhile ?P ys @ x # dropWhile ?P ys"
    using Cons by simp
  have le: "\<forall>z \<in> set ys. key y \<le> key z"
    using Cons.prems by simp
  show ?case
  proof (cases "key y \<le> key x")
    case True
    have "\<forall>z \<in> set (takeWhile ?P ys @ x # dropWhile ?P ys). key y \<le> key z"
      using le True by (auto dest: set_takeWhileD set_dropWhileD)
    then have "insort_key key y (takeWhile ?P ys @ x # dropWhile ?P ys)
                 = y # takeWhile ?P ys @ x # dropWhile ?P ys"
      by (rule insort_key_front)
    then show ?thesis using ih True by simp
  next
    case False
    then have "\<forall>z \<in> set ys. \<not> ?P z"
      using le by auto
    then have tw: "takeWhile ?P ys = []" and dw: "dropWhile ?P ys = ys"
      by (cases ys; simp)+
    have "insort_key key y ys = y # ys"
      using le by (rule insort_key_front)
    then show ?thesis using ih False tw dw by simp
  qed
qed

text \<open>The model of \<^verbatim>\<open>new Date(s).getTime()\<close> at some dates.\<close>

lemma dateGetTime_examples:
  "dateGetTime fb ''1970-01-01'' = Some 0"
  "dateGetTime fb ''2024-06-03'' = Some 1717372800000"
  "dateGetTime fb ''2024-02-30'' = dateGetTime fb ''2024-03-01''"
  "dateGetTime fb ''2024-06-3'' = fb ''2024-06-3''"
  "dateGetTime fb ''2024-00-10'' = fb ''2024-00-10''"
  "dateGetTime fb ''0012-13-40'' = fb ''0012-13-40''"
  by code_simp+

section \<open>The handlers: what they return\<close>

lemma handleAddExpense_success:
  assumes "categorizeExpenseWithGemini env d = Inr c"
      and "matchesDateRegex dt" and "dateGetTime fb dt \<noteq> None"
  shows "expenses (handleAddExpense fb env v d dt inp s)
           = jsSort (compareByDate fb) (expenses s @
               [\<lparr>id_exp = newId env, amount = v, description = d, date = dt,
                 category = categoryOrOutros c, originalInput = inp\<rparr>])"
    and "selectedMonth (handleAddExpense fb env v d dt inp s) = slice07 dt"
    and "localStorage (handleAddExpense fb env v d dt inp s) = localStorage s"
proof -
  obtain t where "dateGetTime fb dt = Some t"
    using assms(3) by auto
  then show "expenses (handleAddExpense fb env v d dt inp s)
           = jsSort (compareByDate fb) (expenses s @
               [\<lparr>id_exp = newId env, amount = v, description = d, date = dt,
                 category = categoryOrOutros c, originalInput = inp\<rparr>])"
    and "selectedMonth (handleAddExpense fb env v d dt inp s) = slice07 dt"
    and "localStorage (handleAddExpense fb env v d dt inp s) = localStorage s"
    using assms(1,2) by (simp_all add: handleAddExpense_def categoryOrOutros_def Let_def)
qed

lemma handleAddExpense_failure:
  assumes "categorizeExpenseWithGemini env d = Inl err
           \<or> \<not> matchesDateRegex dt \<or> dateGetTime fb dt = None"
  shows "expenses (handleAddExpense fb env v d dt inp s) = expenses s"
    and "selectedMonth (handleAddExpense fb env v d dt inp s) = selectedMonth s"
    and "localStorage (handleAddExpense fb env v d dt inp s) = localStorage s"
  using assms by (auto simp add: handleAddExpense_def Let_def split: sum.splits)

text \<open>
  Claim C10. When the input is empty or only white space, or when the API credential is
  missing, handleProcessInput calls no interpreter function, changes neither the expense
  list nor the selected month, and leaves the state as it was but for an error toast.
\<close>

theorem blank_input_or_missing_key_only_notifies:
  assumes "trim (userInput s) = [] \<or> \<not> apiKeyExists s"
  shows "snd (handleProcessInput fb env s) = None
         \<and> aiCalls (fst (handleProcessInput fb env s)) = aiCalls s
         \<and> expenses (fst (handleProcessInput fb env s)) = expenses s
         \<and> selectedMonth (fst (handleProcessInput fb env s)) = selectedMonth s
         \<and> (\<exists>m. toast (fst (handleProcessInput fb env s)) = Some \<lparr>message = m, type = error\<rparr>)
         \<and> fst (handleProcessInput fb env s)
             = s\<lparr>toast := toast (fst (handleProcessInput fb env s))\<rparr>"
proof -
  let ?m = "if \<not> apiKeyExists s then ApiKeyMissing else EmptyInput"
  have "handleProcessInput fb env s = (s\<lparr>toast := Some \<lparr>message = ?m, type = error\<rparr>\<rparr>, None)"
    using assms by (cases "apiKeyExists s") (simp_all add: handleProcessInput_def)
  then show ?thesis by simp
qed

lemma trim_blank_example: "trim (userInput exampleState) = []"
  by code_simp

theorem blank_input_or_missing_key_only_notifies_witness:
  "trim (userInput exampleState) = []
   \<and> snd (handleProcessInput noOtherFormat exampleEnv exampleState) = None
   \<and> aiCalls (fst (handleProcessInput noOtherFormat exampleEnv exampleState)) = []
   \<and> expenses (fst (handleProcessInput noOtherFormat exampleEnv exampleState)) = exampleExpenses
   \<and> selectedMonth (fst (handleProcessInput noOtherFormat exampleEnv exampleState)) = ''2024-05''
   \<and> handleProcessInput noOtherFormat exampleEnv (foodState\<lparr>apiKeyExists := False\<rparr>)
       = (foodState\<lparr>apiKeyExists := False,
                    toast := Some \<lparr>message = ApiKeyMissing, type = error\<rparr>\<rparr>, None)"
proof -
  have "handleProcessInput noOtherFormat exampleEnv (foodState\<lparr>apiKeyExists := False\<rparr>)
          = (foodState\<lparr>apiKeyExists := False,
                       toast := Some \<lparr>message = ApiKeyMissing, type = error\<rparr>\<rparr>, None)"
    by (simp add: handleProcessInput_def)
  then show ?thesis
    using blank_input_or_missing_key_only_notifies [of exampleState noOtherFormat exampleEnv]
          trim_blank_example
    by (simp add: exampleState_def)
qed






text \<open>
  Claim C8. After a successful add the selected month is the month of the new expense: it
  is switched when the two differ and left alone when they agree, and the effect that
  repairs an unavailable selection leaves it there.
\<close>

theorem selected_month_follows_added_expense:
  assumes "categorizeExpenseWithGemini env d = Inr c"
      and "matchesDateRegex dt" and "dateGetTime fb dt \<noteq> None"
  shows "(selectedMonth s \<noteq> slice07 dt \<longrightarrow>
            selectedMonth (handleAddExpense fb env v d dt inp s) = slice07 dt)
         \<and> (selectedMonth s = slice07 dt \<longrightarrow>
            selectedMonth (handleAddExpense fb env v d dt inp s) = selectedMonth s)
         \<and> selectedMonthEffect env (handleAddExpense fb env v d dt inp s)
             = handleAddExpense fb env v d dt inp s"
proof -
  let ?s' = "handleAddExpense fb env v d dt inp s"
  have sel: "selectedMonth ?s' = slice07 dt"
    using assms by (rule handleAddExpense_success)
  have "expenses ?s' = jsSort (compareByDate fb) (expenses s @
          [\<lparr>id_exp = newId env, amount = v, description = d, date = dt,
            category = categoryOrOutros c, originalInput = inp\<rparr>])"
    using assms by (rule handleAddExpense_success)
  then have "\<lparr>id_exp = newId env, amount = v, description = d, date = dt,
              category = categoryOrOutros c, originalInput = inp\<rparr> \<in> set (expenses ?s')"
    by (simp add: set_jsSort)
  then have "\<exists>ex. ex \<in> set (expenses ?s') \<and> date ex = dt"
    by force
  then have "slice07 dt \<in> set (availableMonths env (expenses ?s'))"
    by (auto simp: set_availableMonths)
  then have "selectedMonthEffect env ?s' = ?s'"
    using sel by (simp add: selectedMonthEffect_member)
  then show ?thesis using sel by simp
qed

lemma good_date_example:
  "matchesDateRegex ''2024-06-03'' \<and> dateGetTime noOtherFormat ''2024-06-03'' \<noteq> None"
  by code_simp

theorem selected_month_follows_added_expense_witness:
  "categorizeExpenseWithGemini exampleEnv ''lanche'' = Inr (Some \<lparr>categoria_c = Some ALIMENTACAO\<rparr>)
   \<and> matchesDateRegex ''2024-06-03'' \<and> dateGetTime noOtherFormat ''2024-06-03'' \<noteq> None
   \<and> selectedMonth exampleState = ''2024-05''
   \<and> selectedMonth (handleAddExpense noOtherFormat exampleEnv (Fin 30) ''lanche'' ''2024-06-03'' ''lanche 30''
        exampleState) = ''2024-06''"
  using selected_month_follows_added_expense
          [of exampleEnv "''lanche''" "Some \<lparr>categoria_c = Some ALIMENTACAO\<rparr>" "''2024-06-03''"
              noOtherFormat
              exampleState "Fin 30" "''lanche 30''"]
        good_date_example
  by (simp add: exampleState_def exampleEnv_def slice07_def)

section \<open>The store stays sorted\<close>

lemma compareByDate_timeOf:
  "dateGetTime fb (date a) \<noteq> None \<Longrightarrow> dateGetTime fb (date b) \<noteq> None \<Longrightarrow>
     (compareByDate fb a b \<le> 0) = (timeOf fb a \<le> timeOf fb b)"
  by (auto simp: compareByDate_def timeOf_def)

lemma jsSort_compareByDate:
  "validDates fb xs \<Longrightarrow> jsSort (compareByDate fb) xs = sort_key (timeOf fb) xs"
  by (rule jsSort_eq_sort_key) (simp add: validDates_def list_all_iff compareByDate_timeOf)

lemma validDates_jsSort: "validDates fb (jsSort cmp xs) = validDates fb xs"
  by (simp add: validDates_def list_all_iff set_jsSort)

lemma sortedByDate_jsSort: "validDates fb xs \<Longrightarrow> sortedByDate fb (jsSort (compareByDate fb) xs)"
  by (simp add: jsSort_compareByDate sortedByDate_def)

lemma jsSort_stable:
  "validDates fb xs \<Longrightarrow>
     filter (\<lambda>ex. timeOf fb ex = t) (jsSort (compareByDate fb) xs) = filter (\<lambda>ex. timeOf fb ex = t) xs"
  by (simp add: jsSort_compareByDate sort_key_stable)

lemma jsSort_snoc:
  assumes "validDates fb xs" and "sortedByDate fb xs" and "dateGetTime fb (date x) \<noteq> None"
  shows "jsSort (compareByDate fb) (xs @ [x])
           = takeWhile (\<lambda>y. timeOf fb y \<le> timeOf fb x) xs @ x # dropWhile (\<lambda>y. timeOf fb y \<le> timeOf fb x) xs"
proof -
  have "validDates fb (xs @ [x])"
    using assms by (simp add: validDates_def)
  then have "jsSort (compareByDate fb) (xs @ [x]) = sort_key (timeOf fb) (xs @ [x])"
    by (rule jsSort_compareByDate)
  then show ?thesis
    using assms(2) by (simp add: sortedByDate_def sort_key_snoc_sorted)
qed

lemma expenses_persistEffect: "expenses (persistEffect s) = expenses s"
  by (simp add: persistEffect_def)

lemma expenses_selectedMonthEffect: "expenses (selectedMonthEffect env s) = expenses s"
  by (simp add: selectedMonthEffect_def Let_def)

lemma localStorage_selectedMonthEffect: "localStorage (selectedMonthEffect env s) = localStorage s"
  by (simp add: selectedMonthEffect_def Let_def)

lemma afterRender_store:
  "expenses (afterRender env s) = expenses s
   \<and> localStorage (afterRender env s) = Item (JsonOf (expenses s))"
  by (simp add: afterRender_def expenses_selectedMonthEffect localStorage_selectedMonthEffect
        persistEffect_def)

lemma handleAddExpense_keeps_order:
  assumes "validDates fb (expenses s)" and "sortedByDate fb (expenses s)"
  shows "validDates fb (expenses (handleAddExpense fb env v d dt inp s))
         \<and> sortedByDate fb (expenses (handleAddExpense fb env v d dt inp s))"
proof (cases "\<exists>c. categorizeExpenseWithGemini env d = Inr c \<and> matchesDateRegex dt
                \<and> dateGetTime fb dt \<noteq> None")
  case True
  then obtain c where c: "categorizeExpenseWithGemini env d = Inr c"
    and ok: "matchesDateRegex dt" "dateGetTime fb dt \<noteq> None" by blast
  let ?new = "\<lparr>id_exp = newId env, amount = v, description = d, date = dt,
                category = categoryOrOutros c, originalInput = inp\<rparr>"
  have eq: "expenses (handleAddExpense fb env v d dt inp s)
              = jsSort (compareByDate fb) (expenses s @ [?new])"
    using c ok by (rule handleAddExpense_success)
  have "validDates fb (expenses s @ [?new])"
    using assms(1) ok by (simp add: validDates_def)
  then show ?thesis
    using eq by (simp add: validDates_jsSort sortedByDate_jsSort)
next
  case False
  then have "(\<exists>err. categorizeExpenseWithGemini env d = Inl err)
             \<or> \<not> matchesDateRegex dt \<or> dateGetTime fb dt = None"
    by (cases "categorizeExpenseWithGemini env d") auto
  then have "expenses (handleAddExpense fb env v d dt inp s) = expenses s"
    using handleAddExpense_failure(1) by blast
  then show ?thesis using assms by simp
qed

lemma addExpense_keeps_order:
  assumes "validDates fb (expenses s)" and "sortedByDate fb (expenses s)"
  shows "validDates fb (expenses (addExpense fb s req)) \<and> sortedByDate fb (expenses (addExpense fb s req))
         \<and> localStorage (addExpense fb s req) = Item (JsonOf (expenses (addExpense fb s req)))"
proof -
  obtain env v d dt inp where req: "req = (env, v, d, dt, inp)"
    by (cases req) auto
  show ?thesis
    using handleAddExpense_keeps_order [OF assms, of env v d dt inp]
    by (simp add: req afterRender_store)
qed

lemma addExpenses_snoc: "addExpenses fb (reqs @ [req]) s = addExpense fb (addExpenses fb reqs s) req"
  by (simp add: addExpenses_def)

lemma addExpenses_keep_order:
  assumes "validDates fb (expenses s)" and "sortedByDate fb (expenses s)"
  shows "validDates fb (expenses (addExpenses fb reqs s)) \<and> sortedByDate fb (expenses (addExpenses fb reqs s))
         \<and> (reqs \<noteq> [] \<longrightarrow>
              localStorage (addExpenses fb reqs s) = Item (JsonOf (expenses (addExpenses fb reqs s))))"
proof (induction reqs rule: rev_induct)
  case Nil
  then show ?case using assms by (simp add: addExpenses_def)
next
  case (snoc req reqs)
  then show ?case
    using addExpense_keeps_order [of fb "addExpenses fb reqs s" req]
    by (simp add: addExpenses_snoc)
qed

text \<open>
  Claim C4. From a store whose dates parse and ascend, after every add of any sequence of
  add requests the list is again sorted by date and is what localStorage holds; an
  accepted record goes behind every record dated no later than it and the older records
  keep their order, so records of equal date stay in the order of their arrival.
\<close>

theorem add_keeps_store_sorted_and_persisted:
  assumes "validDates fb (expenses s)" and "sortedByDate fb (expenses s)"
  shows "(\<forall>n \<le> length reqs.
            validDates fb (expenses (addExpenses fb (take n reqs) s))
            \<and> sortedByDate fb (expenses (addExpenses fb (take n reqs) s))
            \<and> (0 < n \<longrightarrow> localStorage (addExpenses fb (take n reqs) s)
                             = Item (JsonOf (expenses (addExpenses fb (take n reqs) s)))))
         \<and> (\<forall>c. categorizeExpenseWithGemini env d = Inr c \<and> matchesDateRegex dt
                 \<and> dateGetTime fb dt \<noteq> None \<longrightarrow>
               (let new = \<lparr>id_exp = newId env, amount = v, description = d, date = dt,
                            category = categoryOrOutros c, originalInput = inp\<rparr>
                in expenses (addExpense fb s (env, v, d, dt, inp))
                     = takeWhile (\<lambda>y. timeOf fb y \<le> timeOf fb new) (expenses s)
                       @ new # dropWhile (\<lambda>y. timeOf fb y \<le> timeOf fb new) (expenses s)))"
proof (intro conjI allI impI)
  fix n assume "n \<le> length reqs"
  have *: "take n reqs \<noteq> [] \<longleftrightarrow> 0 < n \<and> reqs \<noteq> []"
    by (cases n; cases reqs; simp)
  note k = addExpenses_keep_order [OF assms, of "take n reqs"]
  show "validDates fb (expenses (addExpenses fb (take n reqs) s))" using k by simp
  show "sortedByDate fb (expenses (addExpenses fb (take n reqs) s))" using k by simp
  assume "0 < n"
  show "localStorage (addExpenses fb (take n reqs) s)
          = Item (JsonOf (expenses (addExpenses fb (take n reqs) s)))"
  proof (cases "reqs = []")
    case True
    then show ?thesis using \<open>n \<le> length reqs\<close> \<open>0 < n\<close> by simp
  next
    case False
    then show ?thesis using k * \<open>0 < n\<close> by simp
  qed
next
  fix c
  assume h: "categorizeExpenseWithGemini env d = Inr c \<and> matchesDateRegex dt
             \<and> dateGetTime fb dt \<noteq> None"
  let ?new = "\<lparr>id_exp = newId env, amount = v, description = d, date = dt,
                category = categoryOrOutros c, originalInput = inp\<rparr>"
  have "expenses (handleAddExpense fb env v d dt inp s)
          = jsSort (compareByDate fb) (expenses s @ [?new])"
    using h by (intro handleAddExpense_success) auto
  moreover have "jsSort (compareByDate fb) (expenses s @ [?new])
          = takeWhile (\<lambda>y. timeOf fb y \<le> timeOf fb ?new) (expenses s)
            @ ?new # dropWhile (\<lambda>y. timeOf fb y \<le> timeOf fb ?new) (expenses s)"
    using assms h by (intro jsSort_snoc) auto
  ultimately show "let new = ?new
        in expenses (addExpense fb s (env, v, d, dt, inp))
             = takeWhile (\<lambda>y. timeOf fb y \<le> timeOf fb new) (expenses s)
               @ new # dropWhile (\<lambda>y. timeOf fb y \<le> timeOf fb new) (expenses s)"
    by (simp add: afterRender_store Let_def)
qed

section \<open>Available months and loading\<close>

lemma distinct_insort_cmp: "distinct (insort_cmp cmp x ys) = (x \<notin> set ys \<and> distinct ys)"
  by (induction ys) (auto simp: set_insort_cmp)

lemma distinct_jsSort: "distinct (jsSort cmp xs) = distinct xs"
  by (induction xs) (auto simp: jsSort_def distinct_insort_cmp set_jsSort [unfolded jsSort_def])

lemma distinct_setAdd: "distinct ms \<Longrightarrow> distinct (setAdd ms x)"
  by (simp add: setAdd_def)

lemma distinct_months_fold:
  "distinct acc \<Longrightarrow> distinct (foldl (\<lambda>ms ex. setAdd ms (slice07 (date ex))) acc exps)"
  by (induction exps arbitrary: acc) (simp_all add: distinct_setAdd)

lemma distinct_availableMonths: "distinct (availableMonths env exps)"
  by (simp add: availableMonths_def Let_def distinct_jsSort distinct_setAdd distinct_months_fold)

lemma isMonthString_slice07: "matchesDateRegex s \<Longrightarrow> isMonthString (slice07 s)"
  by (auto simp: matchesDateRegex_def isMonthString_def slice07_def drop_take min_def)

lemma sorted_availableMonths:
  assumes lc: "\<forall>a b. isMonthString a \<and> isMonthString b \<longrightarrow> (localeCompare env a b \<le> 0) = (a \<le> b)"
      and dates: "list_all (\<lambda>ex. matchesDateRegex (date ex)) exps"
      and cur: "isMonthString (getCurrentMonthYearGMT3 env)"
  shows "sorted (availableMonths env exps)"
proof -
  define ms where "ms = foldl (\<lambda>ms ex. setAdd ms (slice07 (date ex))) [] exps"
  define ms' where "ms' = (if getCurrentMonthYearGMT3 env \<notin> set ms
                            then setAdd ms (getCurrentMonthYearGMT3 env) else ms)"
  have am: "availableMonths env exps = jsSort (localeCompare env) ms'"
    by (simp add: availableMonths_def ms_def ms'_def Let_def)
  have "set ms = (\<lambda>ex. slice07 (date ex)) ` set exps"
    by (simp add: ms_def set_months_fold)
  then have "\<forall>m \<in> set ms. isMonthString m"
    using dates by (auto simp: list_all_iff isMonthString_slice07)
  then have "\<forall>m \<in> set ms'. isMonthString m"
    using cur by (auto simp: ms'_def set_setAdd)
  then have "\<forall>a \<in> set ms'. \<forall>b \<in> set ms'. (localeCompare env a b \<le> 0) = (a \<le> b)"
    using lc by blast
  then have "jsSort (localeCompare env) ms' = sort_key (\<lambda>m. m) ms'"
    by (rule jsSort_eq_sort_key)
  then show ?thesis
    using am sorted_sort_key [of "\<lambda>m. m" ms'] by simp
qed

text \<open>
  Claim C9. The available months have no duplicates and always contain the current
  month; they are the current month and the seven-character prefixes of the dates. For
  dates of the form \<^verbatim>\<open>YYYY-MM-DD\<close>, on which \<^verbatim>\<open>localeCompare\<close> orders months as their
  code units do, the list is strictly increasing in the lexicographic order.
\<close>

theorem availableMonths_strictly_increasing:
  "distinct (availableMonths env exps)
   \<and> getCurrentMonthYearGMT3 env \<in> set (availableMonths env exps)
   \<and> set (availableMonths env exps)
       = insert (getCurrentMonthYearGMT3 env) ((\<lambda>ex. slice07 (date ex)) ` set exps)
   \<and> ((\<forall>a b. isMonthString a \<and> isMonthString b \<longrightarrow> (localeCompare env a b \<le> 0) = (a \<le> b))
        \<and> list_all (\<lambda>ex. matchesDateRegex (date ex)) exps
        \<and> isMonthString (getCurrentMonthYearGMT3 env)
       \<longrightarrow> sorted_wrt (<) (availableMonths env exps))"
  using sorted_availableMonths [of env exps]
  by (simp add: distinct_availableMonths set_availableMonths strict_sorted_iff)

lemma codeUnitCompare_le: "(codeUnitCompare a b \<le> 0) = (a \<le> b)"
  by (auto simp: codeUnitCompare_def)

lemma example_months: "availableMonths exampleEnv exampleExpenses = [''2024-05'', ''2024-06'']"
  by code_simp

lemma example_dates: "list_all (\<lambda>ex. matchesDateRegex (date ex)) exampleExpenses
   \<and> isMonthString (getCurrentMonthYearGMT3 exampleEnv)"
  by code_simp

theorem availableMonths_strictly_increasing_witness:
  "list_all (\<lambda>ex. matchesDateRegex (date ex)) exampleExpenses
   \<and> isMonthString (getCurrentMonthYearGMT3 exampleEnv)
   \<and> availableMonths exampleEnv exampleExpenses = [''2024-05'', ''2024-06'']
   \<and> sorted_wrt (<) (availableMonths exampleEnv exampleExpenses)"
proof -
  have "localeCompare exampleEnv = codeUnitCompare"
    by (simp add: exampleEnv_def)
  then have "\<forall>a b. isMonthString a \<and> isMonthString b \<longrightarrow>
               (localeCompare exampleEnv a b \<le> 0) = (a \<le> b)"
    by (simp add: codeUnitCompare_le)
  then show ?thesis
    using availableMonths_strictly_increasing [of exampleEnv exampleExpenses]
          example_months example_dates
    by simp
qed

text \<open>
  Claim C6, amended. On mount, a missing or empty item leaves the list empty and raises
  nothing; a stored array of records whose dates parse is loaded sorted by date, stably;
  a text that does not parse makes \<^verbatim>\<open>JSON.parse\<close> throw a SyntaxError that nothing
  catches, and a parsed value that is no array a TypeError.
\<close>

theorem load_sorts_records_or_throws:
  "(st = NoItem \<or> st = Item EmptyText \<longrightarrow>
      snd (loadEffect fb env (initialState env st)) = None
      \<and> expenses (fst (loadEffect fb env (initialState env st))) = [])
   \<and> (validDates fb xs \<longrightarrow>
        snd (loadEffect fb env (initialState env (Item (JsonOf xs)))) = None
        \<and> expenses (fst (loadEffect fb env (initialState env (Item (JsonOf xs)))))
            = sort_key (timeOf fb) xs
        \<and> sortedByDate fb (expenses (fst (loadEffect fb env (initialState env (Item (JsonOf xs))))))
        \<and> (\<forall>t. filter (\<lambda>ex. timeOf fb ex = t)
                  (expenses (fst (loadEffect fb env (initialState env (Item (JsonOf xs))))))
                = filter (\<lambda>ex. timeOf fb ex = t) xs))
   \<and> snd (loadEffect fb env (initialState env (Item Malformed))) = Some SyntaxError
   \<and> snd (loadEffect fb env (initialState env (Item NonArray))) = Some TypeError"
  by (auto simp: loadEffect_def initialState_def Let_def jsSort_compareByDate sortedByDate_def
        sort_key_stable)

lemma example_load:
  "validDates noOtherFormat (rev exampleExpenses)
   \<and> expenses (fst (loadEffect noOtherFormat exampleEnv (initialState exampleEnv (Item (JsonOf (rev exampleExpenses))))))
       = exampleExpenses"
  by code_simp

theorem load_sorts_records_or_throws_witness:
  "validDates noOtherFormat (rev exampleExpenses)
   \<and> expenses (fst (loadEffect noOtherFormat exampleEnv
         (initialState exampleEnv (Item (JsonOf (rev exampleExpenses)))))) = exampleExpenses
   \<and> sortedByDate noOtherFormat (expenses (fst (loadEffect noOtherFormat exampleEnv
         (initialState exampleEnv (Item (JsonOf (rev exampleExpenses)))))))
   \<and> expenses (fst (loadEffect noOtherFormat exampleEnv (initialState exampleEnv NoItem))) = []"
  using load_sorts_records_or_throws [of NoItem noOtherFormat exampleEnv "rev exampleExpenses"] example_load
  by simp

text \<open>
  Claim C6 as stated fails: with a corrupt item the mount effect throws.
\<close>

theorem load_corrupt_storage_counterexample:
  "loadEffect noOtherFormat exampleEnv (initialState exampleEnv (Item Malformed))
     = (initialState exampleEnv (Item Malformed), Some SyntaxError)"
  by (simp add: loadEffect_def exampleEnv_def initialState_def)

lemma example_add:
  "validDates noOtherFormat (expenses exampleState) \<and> sortedByDate noOtherFormat (expenses exampleState)
   \<and> expenses (addExpense noOtherFormat exampleState (exampleEnv, Fin 30, ''lanche'', ''2024-05-02'', ''lanche 30''))
     = [exampleExpenses ! 0,
        \<lparr>id_exp = ''id-1'', amount = Fin 30, description = ''lanche'', date = ''2024-05-02'',
         category = ALIMENTACAO, originalInput = ''lanche 30''\<rparr>,
        exampleExpenses ! 1]"
  by code_simp

theorem add_keeps_store_sorted_and_persisted_witness:
  "validDates noOtherFormat (expenses exampleState) \<and> sortedByDate noOtherFormat (expenses exampleState)
   \<and> expenses (addExpenses noOtherFormat [(exampleEnv, Fin 30, ''lanche'', ''2024-05-02'', ''lanche 30'')] exampleState)
     = [exampleExpenses ! 0,
        \<lparr>id_exp = ''id-1'', amount = Fin 30, description = ''lanche'', date = ''2024-05-02'',
         category = ALIMENTACAO, originalInput = ''lanche 30''\<rparr>,
        exampleExpenses ! 1]
   \<and> sortedByDate noOtherFormat (expenses
        (addExpenses noOtherFormat [(exampleEnv, Fin 30, ''lanche'', ''2024-05-02'', ''lanche 30'')] exampleState))
   \<and> localStorage
        (addExpenses noOtherFormat [(exampleEnv, Fin 30, ''lanche'', ''2024-05-02'', ''lanche 30'')] exampleState)
       = Item (JsonOf (expenses
           (addExpenses noOtherFormat [(exampleEnv, Fin 30, ''lanche'', ''2024-05-02'', ''lanche 30'')] exampleState)))"
proof -
  let ?reqs = "[(exampleEnv, Fin 30, ''lanche'', ''2024-05-02'', ''lanche 30'')]"
  have ex: "validDates noOtherFormat (expenses exampleState)" "sortedByDate noOtherFormat (expenses exampleState)"
    using example_add by simp_all
  have "\<forall>n \<le> length ?reqs.
            validDates noOtherFormat (expenses (addExpenses noOtherFormat (take n ?reqs) exampleState))
            \<and> sortedByDate noOtherFormat (expenses (addExpenses noOtherFormat (take n ?reqs) exampleState))
            \<and> (0 < n \<longrightarrow> localStorage (addExpenses noOtherFormat (take n ?reqs) exampleState)
                             = Item (JsonOf (expenses (addExpenses noOtherFormat (take n ?reqs) exampleState))))"
    using add_keeps_store_sorted_and_persisted [OF ex, of ?reqs] by blast
  from this [rule_format, of 1] show ?thesis
    using example_add by (simp add: addExpenses_def)
qed

section \<open>The scan of a month\<close>

lemma scan_snoc:
  "foldl scanStep scanInit (ms @ [ex]) = scanStep (foldl scanStep scanInit ms) ex"
  by simp

lemma nle_ngt_trans: "\<not> ngt x y \<Longrightarrow> ngt z y \<Longrightarrow> y \<noteq> NaN \<Longrightarrow> \<not> ngt x z"
  by (cases x; cases y; cases z) simp_all

lemma isPositive_not_NaN: "isPositive x \<Longrightarrow> x \<noteq> NaN"
  by (auto simp: isPositive_def)

lemma isPositive_not_le_zero: "isPositive x \<Longrightarrow> \<not> ngt (Fin 0) x"
  by (cases x) (simp_all add: isPositive_def)

text \<open>One step of the scan on a positive amount.\<close>

lemma scanStep_positive:
  assumes s: "\<forall>c. nonNegative (summary s c)" and a: "isPositive (amount ex)"
  defines "t \<equiv> summary (scanStep s ex) (category ex)"
  shows "t = nadd (summary s (category ex)) (amount ex)"
    and "isPositive t"
    and "\<not> ngt (summary s (category ex)) t"
    and "\<forall>c. c \<noteq> category ex \<longrightarrow> summary (scanStep s ex) c = summary s c"
    and "\<forall>c. nonNegative (summary (scanStep s ex) c)"
    and "\<forall>c. \<not> ngt (summary s c) (summary (scanStep s ex) c)"
proof -
  have nn: "nonNegative (summary s (category ex))" using s by simp
  show t: "t = nadd (summary s (category ex)) (amount ex)"
    by (simp add: t_def scanStep_def Let_def orZero_nonNegative [OF nn])
  note p = nadd_positive [OF nn a, folded t]
  show "isPositive t" using p by simp
  show "\<not> ngt (summary s (category ex)) t" using p by simp
  show o: "\<forall>c. c \<noteq> category ex \<longrightarrow> summary (scanStep s ex) c = summary s c"
    by (simp add: scanStep_def Let_def)
  show "\<forall>c. nonNegative (summary (scanStep s ex) c)"
  proof
    fix c show "nonNegative (summary (scanStep s ex) c)"
      using o s p isPositive_nonNegative [of t] by (cases "c = category ex") (simp_all add: t_def)
  qed
  show "\<forall>c. \<not> ngt (summary s c) (summary (scanStep s ex) c)"
  proof
    fix c show "\<not> ngt (summary s c) (summary (scanStep s ex) c)"
      using o p by (cases "c = category ex") (simp_all add: t_def ngt_irrefl)
  qed
qed

lemma summary_scanStep:
  "summary (scanStep s ex)
     = (summary s)(category ex := nadd (orZero (summary s (category ex))) (amount ex))"
  by (simp add: scanStep_def Let_def)

lemma highest_scanStep:
  "highest (scanStep s ex) =
     (case highest s of
        None \<Rightarrow> Some \<lparr>hs_category = category ex, hs_amount = summary (scanStep s ex) (category ex)\<rparr>
      | Some h \<Rightarrow>
          if ngt (summary (scanStep s ex) (category ex)) (hs_amount h)
          then Some \<lparr>hs_category = category ex, hs_amount = summary (scanStep s ex) (category ex)\<rparr>
          else Some h)"
  unfolding scanStep_def Let_def by (simp split: option.splits)

lemma total_scanStep: "total (scanStep s ex) = nadd (total s) (amount ex)"
  by (simp add: scanStep_def Let_def)

lemma scanInv_init: "scanInv [] scanInit"
  by (simp add: scanInv_def scanInit_def nonNegative_zero)

lemma scanInv_step:
  assumes inv: "scanInv ms s" and a: "isPositive (amount ex)"
  shows "scanInv (ms @ [ex]) (scanStep s ex)"
proof -
  let ?c = "category ex" and ?s' = "scanStep s ex"
  let ?t = "summary ?s' ?c"
  have nn: "\<forall>c. nonNegative (summary s c)" using inv by (simp add: scanInv_def)
  note st = scanStep_positive [OF nn a]
  have tpos: "isPositive ?t" by (rule st(2))
  have "nonNegative (total s)" using inv by (simp add: scanInv_def)
  then have tot: "isPositive (total ?s')"
    using nadd_positive [of "total s" "amount ex"] a
    by (simp add: total_scanStep)
  have "\<exists>h. highest ?s' = Some h \<and> hs_amount h = summary ?s' (hs_category h)
          \<and> isPositive (hs_amount h) \<and> (\<forall>c. \<not> ngt (summary ?s' c) (hs_amount h))"
  proof (cases "highest s")
    case None
    then have "ms = []" using inv by (auto simp: scanInv_def)
    then have z: "\<forall>c. summary s c = Fin 0" using inv by (simp add: scanInv_def)
    have "\<forall>c. \<not> ngt (summary ?s' c) ?t"
    proof
      fix c show "\<not> ngt (summary ?s' c) ?t"
        using st(4) z isPositive_not_le_zero [OF tpos]
        by (cases "c = ?c") (simp_all add: ngt_irrefl)
    qed
    moreover have "highest ?s' = Some \<lparr>hs_category = ?c, hs_amount = ?t\<rparr>"
      using None by (simp add: highest_scanStep)
    ultimately show ?thesis
      using tpos by (intro exI [of _ "\<lparr>hs_category = ?c, hs_amount = ?t\<rparr>"]) simp
  next
    case (Some h)
    then have h: "hs_amount h = summary s (hs_category h)" "isPositive (hs_amount h)"
        "\<forall>c. \<not> ngt (summary s c) (hs_amount h)"
      using inv by (auto simp: scanInv_def)
    show ?thesis
    proof (cases "ngt ?t (hs_amount h)")
      case True
      have "\<forall>c. \<not> ngt (summary ?s' c) ?t"
      proof
        fix c show "\<not> ngt (summary ?s' c) ?t"
        proof (cases "c = ?c")
          case True
          then show ?thesis by (simp add: ngt_irrefl)
        next
          case False
          then have "summary ?s' c = summary s c" using st(4) by blast
          moreover have "\<not> ngt (summary s c) ?t"
          proof (rule nle_ngt_trans [of _ "hs_amount h"])
            show "\<not> ngt (summary s c) (hs_amount h)" using h(3) by simp
            show "ngt ?t (hs_amount h)" by fact
            show "hs_amount h \<noteq> NaN" using h(2) by (rule isPositive_not_NaN)
          qed
          ultimately show ?thesis by simp
        qed
      qed
      moreover have "highest ?s' = Some \<lparr>hs_category = ?c, hs_amount = ?t\<rparr>"
        using Some True by (simp add: highest_scanStep)
      ultimately show ?thesis
        using tpos by (intro exI [of _ "\<lparr>hs_category = ?c, hs_amount = ?t\<rparr>"]) simp
    next
      case False
      have eq: "hs_amount h = summary ?s' (hs_category h)"
      proof (cases "hs_category h = ?c")
        case True
        have "\<not> ngt (hs_amount h) ?t"
          using st(3) h(1) True by simp
        then have "?t = hs_amount h"
          using False isPositive_not_NaN [OF tpos] isPositive_not_NaN [OF h(2)]
          by (simp add: nle_antisym)
        then show ?thesis using True by simp
      next
        case False
        then show ?thesis using st(4) h(1) by simp
      qed
      have "\<forall>c. \<not> ngt (summary ?s' c) (hs_amount h)"
      proof
        fix c show "\<not> ngt (summary ?s' c) (hs_amount h)"
          using False st(4) h(3) by (cases "c = ?c") simp_all
      qed
      moreover have "highest ?s' = Some h"
        using Some False by (simp add: highest_scanStep)
      ultimately show ?thesis
        using eq h(2) by (intro exI [of _ h]) simp
    qed
  qed
  then show ?thesis
    unfolding scanInv_def using st(5) tot isPositive_nonNegative [OF tot] by blast
qed

lemma scanInv_scan:
  assumes "list_all (\<lambda>ex. isPositive (amount ex)) ms"
  shows "scanInv ms (foldl scanStep scanInit ms)"
  using assms
proof (induction ms rule: rev_induct)
  case Nil
  then show ?case by (simp add: scanInv_init)
next
  case (snoc ex ms)
  then show ?case by (simp add: scanInv_step)
qed

lemma positiveAmounts_monthExpenses:
  "positiveAmounts exps \<Longrightarrow> positiveAmounts (monthExpenses exps month)"
  by (simp add: positiveAmounts_def monthExpenses_def list_all_iff)

lemma positiveAmounts_take: "positiveAmounts ms \<Longrightarrow> positiveAmounts (take n ms)"
  by (auto simp: positiveAmounts_def list_all_iff dest: in_set_takeD)

lemma scanInv_prefix:
  "positiveAmounts ms \<Longrightarrow> scanInv (take n ms) (foldl scanStep scanInit (take n ms))"
  using scanInv_scan [of "take n ms"] positiveAmounts_take [of ms n]
  by (simp add: positiveAmounts_def)

lemma take_snoc_le: "j \<le> length ms \<Longrightarrow> take j (ms @ [ex]) = take j ms"
  by simp

text \<open>Running totals never decrease along the scan.\<close>

lemma running_mono:
  assumes "positiveAmounts ms" and "j \<le> length ms"
  shows "\<not> ngt (summary (foldl scanStep scanInit (take j ms)) d)
               (summary (foldl scanStep scanInit ms) d)"
  using assms
proof (induction ms rule: rev_induct)
  case Nil
  then show ?case by (simp add: ngt_irrefl)
next
  case (snoc ex ms)
  have pos: "positiveAmounts ms" "isPositive (amount ex)"
    using snoc.prems(1) by (simp_all add: positiveAmounts_def)
  let ?s = "foldl scanStep scanInit ms"
  have inv: "scanInv ms ?s"
    using pos(1) by (simp add: scanInv_scan positiveAmounts_def)
  then have nn: "\<forall>c. nonNegative (summary ?s c)"
    by (simp add: scanInv_def)
  note st = scanStep_positive [OF nn pos(2)]
  show ?case
  proof (cases "j = length ms + 1")
    case True
    then show ?thesis by (simp add: ngt_irrefl)
  next
    case False
    then have j: "j \<le> length ms" using snoc.prems(2) by simp
    have "\<not> ngt (summary (foldl scanStep scanInit (take j ms)) d) (summary (scanStep ?s ex) d)"
    proof (rule nle_trans [of _ "summary ?s d"])
      show "\<not> ngt (summary (foldl scanStep scanInit (take j ms)) d) (summary ?s d)"
        using snoc.IH pos(1) j by simp
      show "\<not> ngt (summary ?s d) (summary (scanStep ?s ex) d)"
        using st(6) by simp
      show "summary ?s d \<noteq> NaN"
        using nn by (simp add: nonNegative_def)
    qed
    then show ?thesis using j by simp
  qed
qed

text \<open>
  The tracked category was the first to reach the tracked amount: whenever some running
  total equals it, the tracked category's running total did so no later.
\<close>

lemma highest_reached_first:
  assumes "positiveAmounts ms"
      and "highest (foldl scanStep scanInit ms) = Some h"
      and "j \<le> length ms"
      and "summary (foldl scanStep scanInit (take j ms)) d = hs_amount h"
  shows "\<exists>k \<le> j. summary (foldl scanStep scanInit (take k ms)) (hs_category h) = hs_amount h"
  using assms
proof (induction ms arbitrary: h j rule: rev_induct)
  case Nil
  then show ?case by (simp add: scanInit_def)
next
  case (snoc ex ms)
  have pos: "positiveAmounts ms" "isPositive (amount ex)"
    using snoc.prems(1) by (simp_all add: positiveAmounts_def)
  let ?s = "foldl scanStep scanInit ms"
  let ?s' = "scanStep ?s ex"
  let ?t = "summary ?s' (category ex)"
  have inv: "scanInv ms ?s"
    using pos(1) by (simp add: scanInv_scan positiveAmounts_def)
  then have nn: "\<forall>c. nonNegative (summary ?s c)"
    by (simp add: scanInv_def)
  note st = scanStep_positive [OF nn pos(2)]
  have inv': "scanInv (ms @ [ex]) ?s'"
    using inv pos(2) by (rule scanInv_step)
  have hi: "highest ?s' = Some h"
    using snoc.prems(2) by simp
  then have own: "hs_amount h = summary ?s' (hs_category h)"
    using inv' by (auto simp: scanInv_def)
  show ?case
  proof (cases "j = length ms + 1")
    case True
    then have "summary (foldl scanStep scanInit (take j (ms @ [ex]))) (hs_category h) = hs_amount h"
      using own by simp
    then show ?thesis by blast
  next
    case False
    then have j: "j \<le> length ms" using snoc.prems(3) by simp
    then have at_j: "summary (foldl scanStep scanInit (take j ms)) d = hs_amount h"
      using snoc.prems(4) by simp
    have le_j: "\<not> ngt (summary (foldl scanStep scanInit (take j ms)) d) (summary ?s d)"
      using pos(1) j by (rule running_mono)
    have kept: "highest ?s = Some h"
    proof (rule ccontr)
      assume changed: "highest ?s \<noteq> Some h"
      have new: "hs_amount h = ?t"
        using hi changed by (auto simp: highest_scanStep split: option.splits if_splits)
      have "ngt ?t (summary ?s d)"
      proof (cases "highest ?s")
        case None
        then have "summary ?s d = Fin 0"
          using inv by (auto simp: scanInv_def)
        then show ?thesis
          using st(2) by (simp add: isPositive_def)
      next
        case (Some h0)
        then have gt: "ngt ?t (hs_amount h0)"
          using hi changed by (auto simp: highest_scanStep split: if_splits)
        have "\<not> ngt (summary ?s d) (hs_amount h0)"
          using inv Some by (auto simp: scanInv_def)
        with gt show ?thesis
        proof (rule ngt_le_trans)
          show "summary ?s d \<noteq> NaN" using nn by (simp add: nonNegative_def)
        qed
      qed
      then have "ngt ?t (summary (foldl scanStep scanInit (take j ms)) d)"
        using le_j by (rule ngt_le_trans) (simp add: at_j new isPositive_not_NaN [OF st(2)])
      then show False
        by (simp add: at_j new ngt_irrefl)
    qed
    obtain k where "k \<le> j"
        "summary (foldl scanStep scanInit (take k ms)) (hs_category h) = hs_amount h"
      using snoc.IH [OF pos(1) kept j at_j] by blast
    then show ?thesis
      using j by (intro exI [of _ k]) simp
  qed
qed

section \<open>Summaries of a month\<close>

lemma round64_numeral [simp]:
  "numeral a < (2 ^ 53 :: int) \<Longrightarrow> round64 (numeral a) = Fin (numeral a)"
  using round64_of_int [of "numeral a"] by simp

lemma round64_zero [simp]: "round64 0 = Fin 0"
  by (simp add: round64_def)

lemma isPositive_numeral [simp]:
  "numeral a < (2 ^ 53 :: int) \<Longrightarrow> isPositive (Fin (numeral a))"
  by (simp add: isPositive_def isDouble_def)

lemma scanMonth_positive:
  assumes "positiveAmounts exps"
  shows "scanInv (monthExpenses exps month) (scanMonth exps month)"
  using positiveAmounts_monthExpenses [OF assms, of month]
  by (simp add: scanMonth_def scanInv_scan positiveAmounts_def)

lemma monthExpenses_empty_iff:
  "(monthExpenses exps month = []) = (\<forall>ex \<in> set exps. \<not> startsWith (date ex) month)"
  by (simp add: monthExpenses_def filter_empty_conv)

lemma isPositive_not_zero: "isPositive x \<Longrightarrow> x \<noteq> Fin 0"
  by (auto simp: isPositive_def)

lemma summary_none_iff:
  assumes "positiveAmounts exps"
  shows "(monthlySummaryData env exps month = None) = (monthExpenses exps month = [])"
    and "isZero (total (scanMonth exps month)) = (monthExpenses exps month = [])"
proof -
  note inv = scanMonth_positive [OF assms, of month]
  show z: "isZero (total (scanMonth exps month)) = (monthExpenses exps month = [])"
    using inv isPositive_not_zero [of "total (scanMonth exps month)"]
    by (auto simp: scanInv_def isZero_def)
  have "monthExpenses exps month = [] \<Longrightarrow>
          list_all (\<lambda>cat. isZero (summary (scanMonth exps month) cat)) CATEGORY_NAMES_ARRAY"
    using inv by (simp add: scanInv_def isZero_def list_all_iff)
  then show "(monthlySummaryData env exps month = None) = (monthExpenses exps month = [])"
    using z by (auto simp: monthlySummaryData_def Let_def)
qed

text \<open>
  Claim C3. With positive amounts, the summary is absent when no expense's date starts
  with the selected month and present as soon as one does, and the grand total of the scan
  is zero exactly when none does.
\<close>

theorem no_matching_expense_no_summary:
  assumes "positiveAmounts exps"
  shows "((\<forall>ex \<in> set exps. \<not> startsWith (date ex) month) \<longrightarrow>
            monthlySummaryData env exps month = None)
         \<and> ((\<exists>ex \<in> set exps. startsWith (date ex) month) \<longrightarrow>
            monthlySummaryData env exps month \<noteq> None)
         \<and> (isZero (total (scanMonth exps month))
              = (\<forall>ex \<in> set exps. \<not> startsWith (date ex) month))"
  using summary_none_iff(1) [OF assms, of env month] summary_none_iff(2) [OF assms, of month]
  by (simp add: monthExpenses_empty_iff)

lemma example_positive: "positiveAmounts exampleExpenses"
  by (simp add: positiveAmounts_def exampleExpenses_def)

lemma example_scan_May:
  "scanMonth exampleExpenses ''2024-05''
     = \<lparr>summary = (\<lambda>cat. Fin 0)(CONTAS_FIXAS := Fin 500, ALIMENTACAO := Fin 50),
        total = Fin 550,
        highest = Some \<lparr>hs_category = CONTAS_FIXAS, hs_amount = Fin 500\<rparr>\<rparr>"
  by (simp add: scanMonth_def monthExpenses_def startsWith_def exampleExpenses_def
        scanStep_def scanInit_def Let_def orZero_def)

lemma example_scan_June: "scanMonth exampleExpenses ''2024-06'' = scanInit"
  by (simp add: scanMonth_def monthExpenses_def startsWith_def exampleExpenses_def)

theorem no_matching_expense_no_summary_witness:
  "positiveAmounts exampleExpenses
   \<and> monthlySummaryData exampleEnv exampleExpenses ''2024-06'' = None
   \<and> monthlySummaryData exampleEnv exampleExpenses ''2024-05'' \<noteq> None
   \<and> total (scanMonth exampleExpenses ''2024-05'') = Fin 550
   \<and> total (scanMonth exampleExpenses ''2024-06'') = Fin 0"
  using no_matching_expense_no_summary [OF example_positive, of "''2024-06''" exampleEnv]
        example_positive
  by (simp add: monthlySummaryData_def example_scan_May example_scan_June isZero_def
        scanInit_def CATEGORY_NAMES_ARRAY_def)

lemma runningTotal_length:
  "runningTotal exps month (length (monthExpenses exps month)) = summary (scanMonth exps month)"
  by (simp add: runningTotal_def scanMonth_def)

lemma runningHighest_length:
  "runningHighest exps month (length (monthExpenses exps month)) = highest (scanMonth exps month)"
  by (simp add: runningHighest_def scanMonth_def)

text \<open>The tracked highest spending changes only when there was none or the new running
  total is strictly greater than the tracked amount.\<close>

lemma highest_changes_only_upwards:
  assumes "n < length (monthExpenses exps month)"
      and "runningHighest exps month (Suc n) \<noteq> runningHighest exps month n"
  shows "runningHighest exps month n = None
         \<or> (\<exists>h0. runningHighest exps month n = Some h0
               \<and> ngt (runningTotal exps month (Suc n) (category (monthExpenses exps month ! n)))
                    (hs_amount h0))"
proof -
  let ?ms = "monthExpenses exps month"
  have "take (Suc n) ?ms = take n ?ms @ [?ms ! n]"
    using assms(1) by (rule take_Suc_conv_app_nth)
  then have step: "foldl scanStep scanInit (take (Suc n) ?ms)
                     = scanStep (foldl scanStep scanInit (take n ?ms)) (?ms ! n)"
    by simp
  show ?thesis
    using assms(2) unfolding runningHighest_def runningTotal_def step
    by (cases "highest (foldl scanStep scanInit (take n ?ms))")
       (auto simp: highest_scanStep split: if_splits)
qed

text \<open>
  Claim C2. With positive amounts, a summary that is present has a highest spending; its
  amount is the total of its category; no category total is greater (and none is NaN);
  whenever the running total of any category equals that amount after \<open>n\<close> expenses,
  the running total of the winning category equalled it after at most \<open>n\<close>; and along
  the scan the tracked highest spending changes only when there was none yet or the new
  running total is strictly greater than the tracked amount.
\<close>

theorem highest_spending_is_first_maximum:
  assumes "positiveAmounts exps" and "monthlySummaryData env exps month = Some m"
  shows "\<exists>h. highestSpending m = Some h
           \<and> hs_amount h = categoryTotals m (hs_category h)
           \<and> (\<forall>c. categoryTotals m c \<noteq> NaN \<and> \<not> ngt (categoryTotals m c) (hs_amount h))
           \<and> (\<forall>d n. n \<le> length (monthExpenses exps month)
                    \<and> runningTotal exps month n d = hs_amount h \<longrightarrow>
                  (\<exists>k \<le> n. runningTotal exps month k (hs_category h) = hs_amount h))
           \<and> (\<forall>n < length (monthExpenses exps month).
                  runningHighest exps month (Suc n) \<noteq> runningHighest exps month n \<longrightarrow>
                  runningHighest exps month n = None
                  \<or> (\<exists>h0. runningHighest exps month n = Some h0
                        \<and> ngt (runningTotal exps month (Suc n)
                                  (category (monthExpenses exps month ! n))) (hs_amount h0)))
           \<and> categoryTotals m = runningTotal exps month (length (monthExpenses exps month))
           \<and> highestSpending m = runningHighest exps month (length (monthExpenses exps month))"
proof -
  let ?ms = "monthExpenses exps month" and ?s = "scanMonth exps month"
  have ne: "?ms \<noteq> []"
    using summary_none_iff(1) [OF assms(1), of env month] assms(2) by auto
  have m: "categoryTotals m = summary ?s" "highestSpending m = highest ?s"
    using assms(2) by (auto simp: monthlySummaryData_def Let_def split: if_splits)
  have pos: "positiveAmounts ?ms"
    using assms(1) by (rule positiveAmounts_monthExpenses)
  note inv = scanMonth_positive [OF assms(1), of month]
  obtain h where h: "highest ?s = Some h" "hs_amount h = summary ?s (hs_category h)"
      "\<forall>c. \<not> ngt (summary ?s c) (hs_amount h)"
    using inv ne unfolding scanInv_def by blast
  have nn: "\<forall>c. summary ?s c \<noteq> NaN"
    using inv by (simp add: scanInv_def nonNegative_def)
  have first: "\<forall>d n. n \<le> length ?ms \<and> runningTotal exps month n d = hs_amount h \<longrightarrow>
                 (\<exists>k \<le> n. runningTotal exps month k (hs_category h) = hs_amount h)"
    unfolding runningTotal_def
    using highest_reached_first [OF pos h(1) [unfolded scanMonth_def]] by blast
  show ?thesis
  proof (intro exI [of _ h] conjI)
    show "highestSpending m = Some h" using m h by simp
    show "hs_amount h = categoryTotals m (hs_category h)" using m h by simp
    show "\<forall>c. categoryTotals m c \<noteq> NaN \<and> \<not> ngt (categoryTotals m c) (hs_amount h)"
      using m h nn by simp
    show "\<forall>d n. n \<le> length ?ms \<and> runningTotal exps month n d = hs_amount h \<longrightarrow>
                 (\<exists>k \<le> n. runningTotal exps month k (hs_category h) = hs_amount h)"
      by (rule first)
    show "\<forall>n < length ?ms.
            runningHighest exps month (Suc n) \<noteq> runningHighest exps month n \<longrightarrow>
            runningHighest exps month n = None
            \<or> (\<exists>h0. runningHighest exps month n = Some h0
                  \<and> ngt (runningTotal exps month (Suc n) (category (?ms ! n))) (hs_amount h0))"
      using highest_changes_only_upwards by blast
    show "categoryTotals m = runningTotal exps month (length ?ms)"
      using m by (simp add: runningTotal_length)
    show "highestSpending m = runningHighest exps month (length ?ms)"
      using m by (simp add: runningHighest_length)
  qed
qed

lemma tie_positive: "positiveAmounts tieExpenses"
  by (simp add: positiveAmounts_def tieExpenses_def)

lemma tie_summary:
  "map_option (\<lambda>m. (map (categoryTotals m) CATEGORY_NAMES_ARRAY, grandTotal m, highestSpending m))
     (monthlySummaryData exampleEnv tieExpenses ''2024-05'')
     = Some ([Fin 50, Fin 50, Fin 0, Fin 0, Fin 0, Fin 0, Fin 0, Fin 0, Fin 0], Fin 100,
             Some \<lparr>hs_category = ALIMENTACAO, hs_amount = Fin 50\<rparr>)"
  by (simp add: monthlySummaryData_def scanMonth_def monthExpenses_def startsWith_def
        tieExpenses_def scanStep_def scanInit_def Let_def orZero_def isZero_def
        CATEGORY_NAMES_ARRAY_def)

theorem highest_spending_is_first_maximum_witness:
  "positiveAmounts tieExpenses
   \<and> map_option (\<lambda>m. (map (categoryTotals m) CATEGORY_NAMES_ARRAY, grandTotal m, highestSpending m))
         (monthlySummaryData exampleEnv tieExpenses ''2024-05'')
       = Some ([Fin 50, Fin 50, Fin 0, Fin 0, Fin 0, Fin 0, Fin 0, Fin 0, Fin 0], Fin 100,
               Some \<lparr>hs_category = ALIMENTACAO, hs_amount = Fin 50\<rparr>)
   \<and> (\<exists>h. highestSpending (the (monthlySummaryData exampleEnv tieExpenses ''2024-05'')) = Some h
          \<and> hs_amount h
              = categoryTotals (the (monthlySummaryData exampleEnv tieExpenses ''2024-05''))
                  (hs_category h))"
proof -
  have "monthlySummaryData exampleEnv tieExpenses ''2024-05''
          = Some (the (monthlySummaryData exampleEnv tieExpenses ''2024-05''))"
    using tie_summary by (cases "monthlySummaryData exampleEnv tieExpenses ''2024-05''") simp_all
  from highest_spending_is_first_maximum [OF tie_positive this]
  have "\<exists>h. highestSpending (the (monthlySummaryData exampleEnv tieExpenses ''2024-05'')) = Some h
          \<and> hs_amount h
              = categoryTotals (the (monthlySummaryData exampleEnv tieExpenses ''2024-05''))
                  (hs_category h)"
    by blast
  then show ?thesis
    using tie_positive tie_summary by blast
qed

lemma nadd_finite_not_NaN: "x \<noteq> NaN \<Longrightarrow> isFinite a \<Longrightarrow> nadd x a \<noteq> NaN"
  by (cases x; cases a) (simp_all add: isFinite_def round64_not_NaN)

lemma orZero_not_NaN: "x \<noteq> NaN \<Longrightarrow> orZero x = x"
  by (simp add: orZero_def)

lemma summary_scanStep_at:
  "summary (scanStep s ex) c
     = (if category ex = c then nadd (orZero (summary s c)) (amount ex) else summary s c)"
  by (auto simp: summary_scanStep)

lemma summary_finite_not_NaN:
  assumes "list_all (\<lambda>ex. isFinite (amount ex)) ms"
  shows "summary (foldl scanStep scanInit ms) c \<noteq> NaN"
  using assms
proof (induction ms rule: rev_induct)
  case Nil
  then show ?case by (simp add: scanInit_def)
next
  case (snoc ex ms)
  then have ih: "summary (foldl scanStep scanInit ms) c \<noteq> NaN" and fin: "isFinite (amount ex)"
    by simp_all
  have "nadd (summary (foldl scanStep scanInit ms) c) (amount ex) \<noteq> NaN"
    using ih fin by (rule nadd_finite_not_NaN)
  then show ?case
    using ih by (simp add: summary_scanStep_at orZero_not_NaN)
qed

lemma summary_finite:
  assumes "list_all (\<lambda>ex. isFinite (amount ex)) ms"
  shows "summary (foldl scanStep scanInit ms) c
           = foldl nadd (Fin 0) (map amount (filter (\<lambda>ex. category ex = c) ms))"
  using assms
proof (induction ms rule: rev_induct)
  case Nil
  then show ?case by (simp add: scanInit_def)
next
  case (snoc ex ms)
  then have fin: "list_all (\<lambda>ex. isFinite (amount ex)) ms" by simp
  have nn: "summary (foldl scanStep scanInit ms) c \<noteq> NaN"
    using fin by (rule summary_finite_not_NaN)
  have ih: "summary (foldl scanStep scanInit ms) c
              = foldl nadd (Fin 0) (map amount (filter (\<lambda>ex. category ex = c) ms))"
    using snoc.IH fin by simp
  have "summary (scanStep (foldl scanStep scanInit ms) ex) c
          = (if category ex = c then nadd (summary (foldl scanStep scanInit ms) c) (amount ex)
             else summary (foldl scanStep scanInit ms) c)"
    by (simp add: summary_scanStep_at orZero_not_NaN [OF nn])
  then show ?case
    by (simp add: ih)
qed
















section \<open>The sum of the category totals\<close>

lemma tenCents: "tenCents = Fin (3602879701896397 / 2 ^ 55)"
  unfolding tenCents_def
  by (subst round64_eval [where E = "- 4"]) (simp_all add: round64_eval_simps)

lemma twentyCents: "twentyCents = Fin (3602879701896397 / 2 ^ 54)"
  unfolding twentyCents_def
  by (subst round64_eval [where E = "- 3"]) (simp_all add: round64_eval_simps)

lemma thirtyCents: "thirtyCents = Fin (5404319552844595 / 2 ^ 54)"
  unfolding thirtyCents_def
  by (subst round64_eval [where E = "- 2"]) (simp_all add: round64_eval_simps)

lemma nadd_zero_left: "isDouble x \<Longrightarrow> nadd (Fin 0) x = x"
  by (cases x) (simp_all add: isDouble_def)

lemma nadd_zero_right: "isDouble x \<Longrightarrow> nadd x (Fin 0) = x"
  by (cases x) (simp_all add: isDouble_def)

lemma cents_double: "isDouble tenCents" "isDouble twentyCents" "isDouble thirtyCents"
  by (simp_all add: tenCents_def twentyCents_def thirtyCents_def isDouble_round64)

text \<open>\<^verbatim>\<open>0.1 + 0.2 + 0.3\<close> is \<^verbatim>\<open>0.6000000000000001\<close>.\<close>

lemma cents_grand_total:
  "nadd (nadd (nadd (Fin 0) tenCents) twentyCents) thirtyCents
     = Fin (5404319552844596 / 2 ^ 53)"
proof -
  have 1: "nadd (Fin 0) tenCents = Fin (3602879701896397 / 2 ^ 55)"
    using nadd_zero_left [OF cents_double(1)] by (simp only: tenCents)
  have 2: "nadd (Fin (3602879701896397 / 2 ^ 55)) twentyCents = Fin (5404319552844596 / 2 ^ 54)"
    unfolding twentyCents nadd.simps
    by (subst round64_eval [where E = "- 2"]) (simp_all add: round64_eval_simps)
  have 3: "nadd (Fin (5404319552844596 / 2 ^ 54)) thirtyCents = Fin (5404319552844596 / 2 ^ 53)"
    unfolding thirtyCents nadd.simps
    by (subst round64_eval [where E = "- 1"]) (simp_all add: round64_eval_simps)
  show ?thesis
    by (simp only: 1 2 3)
qed

text \<open>\<^verbatim>\<open>0.2 + 0.3\<close> is \<^verbatim>\<open>0.5\<close>.\<close>

lemma cents_transport_total:
  "nadd (nadd (Fin 0) twentyCents) thirtyCents = Fin (1 / 2)"
proof -
  have 1: "nadd (Fin 0) twentyCents = Fin (3602879701896397 / 2 ^ 54)"
    using nadd_zero_left [OF cents_double(2)] by (simp only: twentyCents)
  have 2: "nadd (Fin (3602879701896397 / 2 ^ 54)) thirtyCents = Fin (1 / 2)"
    unfolding thirtyCents nadd.simps
    by (subst round64_eval [where E = "- 1"]) (simp_all add: round64_eval_simps)
  show ?thesis
    by (simp only: 1 2)
qed

text \<open>\<^verbatim>\<open>0.1 + 0.5\<close> is \<^verbatim>\<open>0.6\<close>.\<close>

lemma cents_sum_of_totals:
  "nadd (nadd (Fin 0) tenCents) (Fin (1 / 2)) = Fin (5404319552844595 / 2 ^ 53)"
proof -
  have 1: "nadd (Fin 0) tenCents = Fin (3602879701896397 / 2 ^ 55)"
    using nadd_zero_left [OF cents_double(1)] by (simp only: tenCents)
  have 2: "nadd (Fin (3602879701896397 / 2 ^ 55)) (Fin (1 / 2)) = Fin (5404319552844595 / 2 ^ 53)"
    unfolding nadd.simps
    by (subst round64_eval [where E = "- 1"]) (simp_all add: round64_eval_simps)
  show ?thesis
    by (simp only: 1 2)
qed

lemma total_scan: "total (foldl scanStep s ms) = foldl nadd (total s) (map amount ms)"
  by (induction ms arbitrary: s) (simp_all add: total_scanStep)

lemma cents_month: "monthExpenses centExpenses ''2024-05'' = centExpenses"
  by (simp add: monthExpenses_def centExpenses_def startsWith_def)

lemma cents_finite: "list_all (\<lambda>ex. isFinite (amount ex)) centExpenses"
  by (simp add: centExpenses_def tenCents twentyCents thirtyCents isFinite_def)

lemma cents_total:
  "total (scanMonth centExpenses ''2024-05'') = Fin (5404319552844596 / 2 ^ 53)"
  unfolding scanMonth_def cents_month total_scan
  by (simp add: centExpenses_def scanInit_def cents_grand_total del: nadd.simps)

lemma cents_summary:
  "map (summary (scanMonth centExpenses ''2024-05'')) CATEGORY_NAMES_ARRAY
     = [tenCents, Fin (1 / 2), Fin 0, Fin 0, Fin 0, Fin 0, Fin 0, Fin 0, Fin 0]"
proof -
  have "\<And>c. summary (scanMonth centExpenses ''2024-05'') c
           = foldl nadd (Fin 0) (map amount (filter (\<lambda>ex. category ex = c) centExpenses))"
    unfolding scanMonth_def cents_month using cents_finite by (rule summary_finite)
  then show ?thesis
    by (simp add: CATEGORY_NAMES_ARRAY_def centExpenses_def cents_transport_total
          nadd_zero_left [OF cents_double(1)] del: nadd.simps)
qed

lemma cents_sum:
  "foldl nadd (Fin 0) [tenCents, Fin (1 / 2), Fin 0, Fin 0, Fin 0, Fin 0, Fin 0, Fin 0, Fin 0]
     = Fin (5404319552844595 / 2 ^ 53)"
proof -
  have "isDouble (nadd (nadd (Fin 0) tenCents) (Fin (1 / 2)))"
  proof (intro isDouble_nadd cents_double)
    show "isDouble (Fin 0)" by (simp add: isDouble_def)
    show "isDouble (Fin (1 / 2))"
      unfolding isDouble_def number.case
      by (subst round64_eval [where E = "- 1"]) (simp_all add: round64_eval_simps)
  qed
  then have d: "isDouble (Fin (5404319552844595 / 2 ^ 53))"
    by (simp only: cents_sum_of_totals)
  have z: "nadd (Fin (5404319552844595 / 2 ^ 53)) (Fin 0) = Fin (5404319552844595 / 2 ^ 53)"
    using d by (rule nadd_zero_right)
  show ?thesis
    by (simp only: foldl.simps cents_sum_of_totals z)
qed

text \<open>
  Claim C1 as stated fails on doubles. Three expenses of May, 0.1 for food and 0.2 and 0.3
  for transport: the grand total is \<^verbatim>\<open>0.1 + 0.2 + 0.3 = 0.6000000000000001\<close>, the category
  totals are 0.1 and 0.5, and their sum is \<^verbatim>\<open>0.6\<close>.
\<close>

theorem category_totals_sum_counterexample:
  "monthlySummaryData exampleEnv centExpenses ''2024-05'' \<noteq> None
   \<and> sumCategoryTotals (the (monthlySummaryData exampleEnv centExpenses ''2024-05''))
       = Fin (5404319552844595 / 2 ^ 53)
   \<and> grandTotal (the (monthlySummaryData exampleEnv centExpenses ''2024-05''))
       = Fin (5404319552844596 / 2 ^ 53)
   \<and> sumCategoryTotals (the (monthlySummaryData exampleEnv centExpenses ''2024-05''))
       \<noteq> grandTotal (the (monthlySummaryData exampleEnv centExpenses ''2024-05''))"
proof -
  have "monthlySummaryData exampleEnv centExpenses ''2024-05''
          = Some \<lparr>categoryTotals = summary (scanMonth centExpenses ''2024-05''),
                  grandTotal = total (scanMonth centExpenses ''2024-05''),
                  highestSpending = highest (scanMonth centExpenses ''2024-05''),
                  monthLabel = formatMonthYear exampleEnv ''2024-05''\<rparr>"
    by (simp add: monthlySummaryData_def Let_def cents_total isZero_def)
  moreover have "sumCategoryTotals
                   \<lparr>categoryTotals = summary (scanMonth centExpenses ''2024-05''),
                    grandTotal = total (scanMonth centExpenses ''2024-05''),
                    highestSpending = highest (scanMonth centExpenses ''2024-05''),
                    monthLabel = formatMonthYear exampleEnv ''2024-05''\<rparr>
                 = Fin (5404319552844595 / 2 ^ 53)"
    by (simp only: sumCategoryTotals_def MonthlySummaryData.simps cents_summary cents_sum)
  ultimately show ?thesis
    by (simp add: cents_total)
qed

lemma isInteger_amount: "isInteger (amount ex) \<Longrightarrow> amount ex = Fin (of_int (wholeOf ex))"
  by (cases "amount ex") (auto simp: isInteger_def wholeOf_def valueOf_def)

lemma orZero_Fin: "orZero (Fin q) = Fin q"
  by (simp add: orZero_def)

lemma nadd_whole:
  "\<bar>a + b\<bar> < 2 ^ 53 \<Longrightarrow> nadd (Fin (of_int a)) (Fin (of_int b)) = Fin (of_int (a + b))"
  using round64_of_int [of "a + b"] by simp

lemma abs_sum_list_le: "\<bar>sum_list (map f xs)\<bar> \<le> sum_list (map (\<lambda>x. \<bar>f x :: int\<bar>) xs)"
  using sum_list_abs [of "map f xs"] by (simp add: comp_def)

lemma sum_list_filter_le:
  "sum_list (map (\<lambda>x. \<bar>f x :: int\<bar>) (filter P xs)) \<le> sum_list (map (\<lambda>x. \<bar>f x\<bar>) xs)"
proof (induction xs)
  case Nil
  then show ?case by simp
next
  case (Cons x xs)
  have "0 \<le> \<bar>f x\<bar>" by simp
  then show ?case using Cons by (cases "P x") simp_all
qed

lemma wholeOfCategory_bound: "\<bar>wholeOfCategory c ms\<bar> \<le> absTotal ms"
  unfolding wholeOfCategory_def absTotal_def
  using abs_sum_list_le [of wholeOf "filter (\<lambda>ex. category ex = c) ms"]
        sum_list_filter_le [of wholeOf "\<lambda>ex. category ex = c" ms]
  by linarith

lemma whole_total_bound: "\<bar>sum_list (map wholeOf ms)\<bar> \<le> absTotal ms"
  unfolding absTotal_def by (rule abs_sum_list_le)

lemma absTotal_snoc: "absTotal (ms @ [ex]) = absTotal ms + \<bar>wholeOf ex\<bar>"
  by (simp add: absTotal_def)

lemma wholeOfCategory_snoc:
  "wholeOfCategory c (ms @ [ex])
     = wholeOfCategory c ms + (if category ex = c then wholeOf ex else 0)"
  by (simp add: wholeOfCategory_def)

text \<open>With whole amounts of bounded size, every addition of the scan is exact.\<close>

lemma scan_whole:
  assumes "wholeAmounts ms" and "absTotal ms < 2 ^ 53"
  shows "total (foldl scanStep scanInit ms) = Fin (of_int (sum_list (map wholeOf ms)))
         \<and> (\<forall>c. summary (foldl scanStep scanInit ms) c = Fin (of_int (wholeOfCategory c ms)))"
  using assms
proof (induction ms rule: rev_induct)
  case Nil
  then show ?case by (simp add: scanInit_def wholeOfCategory_def)
next
  case (snoc ex ms)
  let ?s = "foldl scanStep scanInit ms"
  have w: "wholeAmounts ms" and i: "isInteger (amount ex)"
    using snoc.prems(1) by (simp_all add: wholeAmounts_def)
  have a: "amount ex = Fin (of_int (wholeOf ex))"
    using i by (rule isInteger_amount)
  have b: "absTotal ms < 2 ^ 53"
    using snoc.prems(2) by (simp add: absTotal_snoc)
  have ih: "total ?s = Fin (of_int (sum_list (map wholeOf ms)))"
      "\<And>c. summary ?s c = Fin (of_int (wholeOfCategory c ms))"
    using snoc.IH [OF w b] by simp_all
  have "\<bar>sum_list (map wholeOf (ms @ [ex]))\<bar> < 2 ^ 53"
    using whole_total_bound [of "ms @ [ex]"] snoc.prems(2) by linarith
  then have "\<bar>sum_list (map wholeOf ms) + wholeOf ex\<bar> < 2 ^ 53"
    by simp
  then have "nadd (Fin (of_int (sum_list (map wholeOf ms)))) (Fin (of_int (wholeOf ex)))
               = Fin (of_int (sum_list (map wholeOf ms) + wholeOf ex))"
    by (rule nadd_whole)
  then have t: "total (scanStep ?s ex) = Fin (of_int (sum_list (map wholeOf (ms @ [ex]))))"
    by (simp add: total_scanStep ih(1) a del: nadd.simps)
  have "\<And>c. summary (scanStep ?s ex) c = Fin (of_int (wholeOfCategory c (ms @ [ex])))"
  proof -
    fix c
    have bound: "\<bar>wholeOfCategory c (ms @ [ex])\<bar> < 2 ^ 53"
      using wholeOfCategory_bound [of c "ms @ [ex]"] snoc.prems(2) by linarith
    show "summary (scanStep ?s ex) c = Fin (of_int (wholeOfCategory c (ms @ [ex])))"
    proof (cases "category ex = c")
      case True
      then have "\<bar>wholeOfCategory c ms + wholeOf ex\<bar> < 2 ^ 53"
        using bound by (simp add: wholeOfCategory_snoc)
      then have "nadd (Fin (of_int (wholeOfCategory c ms))) (Fin (of_int (wholeOf ex)))
                   = Fin (of_int (wholeOfCategory c ms + wholeOf ex))"
        by (rule nadd_whole)
      then show ?thesis
        using True by (simp add: summary_scanStep_at ih(2) a orZero_Fin wholeOfCategory_snoc
            del: nadd.simps)
    next
      case False
      then show ?thesis
        by (simp add: summary_scanStep_at ih(2) wholeOfCategory_snoc)
    qed
  qed
  then show ?case using t by simp
qed

lemma foldl_nadd_whole:
  "\<bar>a\<bar> + sum_list (map (\<lambda>c. \<bar>f c\<bar>) cs) < 2 ^ 53 \<Longrightarrow>
     foldl nadd (Fin (of_int a)) (map (\<lambda>c. Fin (of_int (f c))) cs)
       = Fin (of_int (a + sum_list (map f cs)))"
proof (induction cs arbitrary: a)
  case Nil
  then show ?case by simp
next
  case (Cons c cs)
  have nn: "0 \<le> sum_list (map (\<lambda>c. \<bar>f c\<bar>) cs)"
    by (rule sum_list_nonneg) auto
  have pr: "\<bar>a\<bar> + (\<bar>f c\<bar> + sum_list (map (\<lambda>c. \<bar>f c\<bar>) cs)) < 2 ^ 53"
    using Cons.prems by simp
  have tr: "\<bar>a + f c\<bar> \<le> \<bar>a\<bar> + \<bar>f c\<bar>"
    by (rule abs_triangle_ineq)
  have 1: "\<bar>a + f c\<bar> < 2 ^ 53"
    using pr tr nn by linarith
  have "\<bar>a + f c\<bar> + sum_list (map (\<lambda>c. \<bar>f c\<bar>) cs) < 2 ^ 53"
    using pr tr by linarith
  then have "foldl nadd (Fin (of_int (a + f c))) (map (\<lambda>c. Fin (of_int (f c))) cs)
               = Fin (of_int (a + f c + sum_list (map f cs)))"
    by (rule Cons.IH)
  moreover have "nadd (Fin (of_int a)) (Fin (of_int (f c))) = Fin (of_int (a + f c))"
    using 1 by (rule nadd_whole)
  ultimately show ?case
    by (simp add: add.assoc del: nadd.simps)
qed

text \<open>Every expense lies in exactly one of the nine categories.\<close>

lemma one_category:
  "sum_list (map (\<lambda>c. if category ex = c then k else 0) CATEGORY_NAMES_ARRAY) = (k::int)"
  by (cases "category ex") (simp_all add: CATEGORY_NAMES_ARRAY_def)

lemma categories_partition:
  "sum_list (map (\<lambda>c. wholeOfCategory c ms) CATEGORY_NAMES_ARRAY) = sum_list (map wholeOf ms)"
proof (induction ms rule: rev_induct)
  case Nil
  then show ?case by (simp add: wholeOfCategory_def CATEGORY_NAMES_ARRAY_def)
next
  case (snoc ex ms)
  have "sum_list (map (\<lambda>c. wholeOfCategory c (ms @ [ex])) CATEGORY_NAMES_ARRAY)
          = sum_list (map (\<lambda>c. wholeOfCategory c ms) CATEGORY_NAMES_ARRAY)
            + sum_list (map (\<lambda>c. if category ex = c then wholeOf ex else 0) CATEGORY_NAMES_ARRAY)"
    by (simp only: wholeOfCategory_snoc sum_list_addf)
  then show ?case
    by (simp add: snoc.IH one_category)
qed

lemma categories_abs_bound:
  "sum_list (map (\<lambda>c. \<bar>wholeOfCategory c ms\<bar>) CATEGORY_NAMES_ARRAY) \<le> absTotal ms"
proof (induction ms rule: rev_induct)
  case Nil
  then show ?case by (simp add: wholeOfCategory_def absTotal_def CATEGORY_NAMES_ARRAY_def)
next
  case (snoc ex ms)
  have "sum_list (map (\<lambda>c. \<bar>wholeOfCategory c (ms @ [ex])\<bar>) CATEGORY_NAMES_ARRAY)
          \<le> sum_list (map (\<lambda>c. \<bar>wholeOfCategory c ms\<bar>
                               + (if category ex = c then \<bar>wholeOf ex\<bar> else 0))
                CATEGORY_NAMES_ARRAY)"
    by (rule sum_list_mono) (simp add: wholeOfCategory_snoc abs_triangle_ineq)
  also have "\<dots> = sum_list (map (\<lambda>c. \<bar>wholeOfCategory c ms\<bar>) CATEGORY_NAMES_ARRAY)
                  + sum_list (map (\<lambda>c. if category ex = c then \<bar>wholeOf ex\<bar> else 0)
                      CATEGORY_NAMES_ARRAY)"
    by (simp only: sum_list_addf)
  also have "\<dots> \<le> absTotal ms + \<bar>wholeOf ex\<bar>"
    using snoc.IH by (simp add: one_category)
  finally show ?case
    by (simp add: absTotal_snoc)
qed

text \<open>
  Claim C1, amended. When the amounts of the month are whole numbers whose absolute
  values add up to less than \<open>2^53\<close>, no addition rounds, and the nine category totals of
  a summary sum exactly to its grand total.
\<close>

theorem whole_amounts_totals_add_up:
  assumes "wholeAmounts (monthExpenses exps month)"
      and "absTotal (monthExpenses exps month) < 2 ^ 53"
      and "monthlySummaryData env exps month = Some m"
  shows "sumCategoryTotals m = grandTotal m"
proof -
  let ?ms = "monthExpenses exps month"
  have m: "categoryTotals m = summary (scanMonth exps month)"
      "grandTotal m = total (scanMonth exps month)"
    using assms(3) by (auto simp: monthlySummaryData_def Let_def split: if_splits)
  note sw = scan_whole [OF assms(1,2), folded scanMonth_def]
  have "categoryTotals m = (\<lambda>c. Fin (of_int (wholeOfCategory c ?ms)))"
    using sw by (simp add: m(1) fun_eq_iff)
  moreover have "foldl nadd (Fin (of_int 0))
                   (map (\<lambda>c. Fin (of_int (wholeOfCategory c ?ms))) CATEGORY_NAMES_ARRAY)
                 = Fin (of_int (0 + sum_list (map (\<lambda>c. wholeOfCategory c ?ms) CATEGORY_NAMES_ARRAY)))"
    using categories_abs_bound [of ?ms] assms(2) by (intro foldl_nadd_whole) simp
  ultimately have "sumCategoryTotals m = Fin (of_int (sum_list (map wholeOf ?ms)))"
    by (simp add: sumCategoryTotals_def categories_partition)
  then show ?thesis
    using sw by (simp add: m(2))
qed

lemma example_whole:
  "wholeAmounts (monthExpenses exampleExpenses ''2024-05'')
   \<and> absTotal (monthExpenses exampleExpenses ''2024-05'') = 550"
  by (simp add: wholeAmounts_def absTotal_def wholeOf_def valueOf_def isInteger_def
        monthExpenses_def startsWith_def exampleExpenses_def)

lemma example_summary:
  "map_option (\<lambda>m. (map (categoryTotals m) CATEGORY_NAMES_ARRAY, grandTotal m, highestSpending m))
     (monthlySummaryData exampleEnv exampleExpenses ''2024-05'')
     = Some ([Fin 50, Fin 0, Fin 0, Fin 500, Fin 0, Fin 0, Fin 0, Fin 0, Fin 0], Fin 550,
             Some \<lparr>hs_category = CONTAS_FIXAS, hs_amount = Fin 500\<rparr>)"
  by (simp add: monthlySummaryData_def example_scan_May isZero_def CATEGORY_NAMES_ARRAY_def)

theorem whole_amounts_totals_add_up_witness:
  "wholeAmounts (monthExpenses exampleExpenses ''2024-05'')
   \<and> absTotal (monthExpenses exampleExpenses ''2024-05'') = 550
   \<and> map_option (\<lambda>m. (map (categoryTotals m) CATEGORY_NAMES_ARRAY, grandTotal m, highestSpending m))
         (monthlySummaryData exampleEnv exampleExpenses ''2024-05'')
       = Some ([Fin 50, Fin 0, Fin 0, Fin 500, Fin 0, Fin 0, Fin 0, Fin 0, Fin 0], Fin 550,
               Some \<lparr>hs_category = CONTAS_FIXAS, hs_amount = Fin 500\<rparr>)
   \<and> sumCategoryTotals (the (monthlySummaryData exampleEnv exampleExpenses ''2024-05''))
       = grandTotal (the (monthlySummaryData exampleEnv exampleExpenses ''2024-05''))"
proof -
  have some: "monthlySummaryData exampleEnv exampleExpenses ''2024-05''
          = Some (the (monthlySummaryData exampleEnv exampleExpenses ''2024-05''))"
    using example_summary
    by (cases "monthlySummaryData exampleEnv exampleExpenses ''2024-05''") simp_all
  have "absTotal (monthExpenses exampleExpenses ''2024-05'') < 2 ^ 53"
    using example_whole by simp
  with example_whole
  have "sumCategoryTotals (the (monthlySummaryData exampleEnv exampleExpenses ''2024-05''))
          = grandTotal (the (monthlySummaryData exampleEnv exampleExpenses ''2024-05''))"
    using some by (intro whole_amounts_totals_add_up [where env = exampleEnv]) simp_all
  then show ?thesis
    using example_whole example_summary by blast
qed

end
